theory Spec2Isabelle
  imports Main "HOL-Library.Word"
begin

section \<open>Strings\<close>

text \<open>
  A JavaScript string is a sequence of UTF-16 code units; \<open>charCodeAt\<close>, indexing and
  \<open>length\<close> all count code units. \<open>str\<close> embeds a literal of the source.
\<close>

type_synonym code_unit = "16 word"
type_synonym jsstring = "code_unit list"

definition str :: "string \<Rightarrow> jsstring" where
  "str s = map of_char s"

section \<open>Name transformer\<close>

definition capitalACharCode :: code_unit where
  "capitalACharCode = 0x41"

definition capitalZCharCode :: code_unit where
  "capitalZCharCode = 0x5A"

text \<open>
  \<open>charCodeAt\<close> beyond the end of the string is NaN, and both comparisons with NaN are
  false.
\<close>

definition isUpper :: "jsstring \<Rightarrow> nat \<Rightarrow> bool" where
  "isUpper input index =
     (index < length input \<and>
      capitalACharCode \<le> input ! index \<and> capitalZCharCode \<ge> input ! index)"

text \<open>
  \<open>camelCased[i].toLowerCase()\<close> is evaluated only where \<open>isUpper camelCased i\<close> holds,
  on a string of that one code unit: there \<open>toLowerCase\<close> maps \<open>A\<close>..\<open>Z\<close> to \<open>a\<close>..\<open>z\<close>.
\<close>

definition toLowerCase_unit :: "code_unit \<Rightarrow> code_unit" where
  "toLowerCase_unit c =
     (if capitalACharCode \<le> c \<and> c \<le> capitalZCharCode then c + 0x20 else c)"

text \<open>The body of the \<open>for\<close> loop of \<open>toKebabCase\<close>: what iteration \<open>i\<close> appends.\<close>

definition kebab_step :: "jsstring \<Rightarrow> nat \<Rightarrow> jsstring" where
  "kebab_step camelCased i =
     (let prevUpperCased = (if i > 0 then isUpper camelCased (i - 1) else True);
          currentUpperCased = isUpper camelCased i;
          nextUpperCased =
            (if i < length camelCased - 1 then isUpper camelCased (i + 1) else True)
      in if (\<not> prevUpperCased \<and> currentUpperCased) \<or> (currentUpperCased \<and> \<not> nextUpperCased)
         then [0x2D, toLowerCase_unit (camelCased ! i)]
         else [camelCased ! i])"

function toKebabCase_loop :: "jsstring \<Rightarrow> nat \<Rightarrow> jsstring \<Rightarrow> jsstring" where
  "toKebabCase_loop camelCased i kebabCased =
     (if i < length camelCased
      then toKebabCase_loop camelCased (i + 1) (kebabCased @ kebab_step camelCased i)
      else kebabCased)"
  by pat_completeness auto
termination
  by (relation "measure (\<lambda>(camelCased, i, kebabCased). length camelCased - i)") auto

definition toKebabCase :: "jsstring \<Rightarrow> jsstring" where
  "toKebabCase camelCased = toKebabCase_loop camelCased 0 []"

section \<open>Escaper\<close>

text \<open>
  \<open>String.prototype.replace\<close> with a global pattern whose every alternative consumes
  exactly one code unit: the scan goes left to right, a unit the pattern matches is
  replaced by what the replacer returns for the match, any other unit is copied, and
  the scan resumes after the unit (the output is not scanned again).
\<close>

fun replace_global :: "(code_unit \<Rightarrow> 'm option) \<Rightarrow> ('m \<Rightarrow> jsstring) \<Rightarrow> jsstring \<Rightarrow> jsstring" where
  "replace_global pattern replacer [] = []"
| "replace_global pattern replacer (c # cs) =
     (case pattern c of
        None \<Rightarrow> c # replace_global pattern replacer cs
      | Some m \<Rightarrow> replacer m @ replace_global pattern replacer cs)"

text \<open>
  The pattern of the source (an ampersand, a double quote or U+00A0, each in a capture
  group of its own, global): the alternatives are tried in order, and a match
  records which of the three capture groups took part (the others are \<open>undefined\<close>).
\<close>

record attr_match =
  amp :: bool
  quote :: bool
  nbsp :: bool

definition attr_pattern :: "code_unit \<Rightarrow> attr_match option" where
  "attr_pattern c =
     (if c = 0x26 then Some \<lparr>amp = True, quote = False, nbsp = False\<rparr>
      else if c = 0x22 then Some \<lparr>amp = False, quote = True, nbsp = False\<rparr>
      else if c = 0xA0 then Some \<lparr>amp = False, quote = False, nbsp = True\<rparr>
      else None)"

definition attr_replacer :: "attr_match \<Rightarrow> jsstring" where
  "attr_replacer m =
     (if amp m then str ''&amp;''
      else if quote m then str ''&quot;''
      else str ''&nbsp;'')"

definition escapeAttrNodeValue :: "jsstring \<Rightarrow> jsstring" where
  "escapeAttrNodeValue v = replace_global attr_pattern attr_replacer v"

text \<open>\<open>s.replace(/c/g, "r")\<close> for a single code unit \<open>c\<close> and a replacement without \<open>$\<close>.\<close>

definition replace_unit :: "code_unit \<Rightarrow> jsstring \<Rightarrow> jsstring \<Rightarrow> jsstring" where
  "replace_unit c r s =
     replace_global (\<lambda>x. if x = c then Some () else None) (\<lambda>_. r) s"

text \<open>The four chained \<open>replace\<close> calls of \<open>flattenContents\<close>, in the order of the source.\<close>

definition escapeText :: "jsstring \<Rightarrow> jsstring" where
  "escapeText s =
     replace_unit 0x22 (str ''&quot;'')
       (replace_unit 0x3E (str ''&gt;'')
         (replace_unit 0x3C (str ''&lt;'')
           (replace_unit 0x26 (str ''&amp;'') s)))"

section \<open>Values and the store\<close>

text \<open>
  Numbers: the integer-valued doubles below \<open>10 ^ 21\<close> in magnitude, whose string form
  is their decimal numeral, and the three values that are not finite. From \<open>10 ^ 21\<close> on
  the platform prints an exponent, and a fraction prints its digits: both are outside
  the model, and \<open>number_toString\<close> says nothing true of them.
\<close>

datatype number = Num int | NaN | PosInfinity | NegInfinity

function nat_digits :: "nat \<Rightarrow> jsstring" where
  "nat_digits n =
     (if n < 10 then [0x30 + of_nat n]
      else nat_digits (n div 10) @ [0x30 + of_nat (n mod 10)])"
  by pat_completeness auto
termination
  by (relation "measure id") auto

fun number_toString :: "number \<Rightarrow> jsstring" where
  "number_toString (Num i) =
     (if i < 0 then 0x2D # nat_digits (nat (- i)) else nat_digits (nat i))"
| "number_toString NaN = str ''NaN''"
| "number_toString PosInfinity = str ''Infinity''"
| "number_toString NegInfinity = str ''-Infinity''"

text \<open>
  A \<open>Date\<close> is taken with what the platform computes from it: \<open>toISOString\<close>, which
  throws a RangeError on an invalid time value (\<open>None\<close>), and \<open>toString\<close>.
\<close>

datatype date = Date (iso: "jsstring option") (display: jsstring)

text \<open>
  The values an attribute can hold: \<open>AttributeValue\<close> is
  \<open>number | string | Date | boolean\<close>, and \<open>attributeToString\<close> also provides for
  \<open>null\<close> and \<open>undefined\<close>.
\<close>

datatype prim =
    VUndefined
  | VNull
  | VBoolean bool
  | VNumber number
  | VString jsstring
  | VDate date

text \<open>\<open>'' + v\<close>\<close>

fun ToString :: "prim \<Rightarrow> jsstring" where
  "ToString VUndefined = str ''undefined''"
| "ToString VNull = str ''null''"
| "ToString (VBoolean b) = (if b then str ''true'' else str ''false'')"
| "ToString (VNumber n) = number_toString n"
| "ToString (VString s) = s"
| "ToString (VDate d) = display d"

text \<open>The truth value of \<open>v\<close> in a condition.\<close>

fun truthy :: "prim \<Rightarrow> bool" where
  "truthy VUndefined = False"
| "truthy VNull = False"
| "truthy (VBoolean b) = b"
| "truthy (VNumber n) = (n \<noteq> Num 0 \<and> n \<noteq> NaN)"
| "truthy (VString s) = (s \<noteq> [])"
| "truthy (VDate d) = True"

text \<open>
  Objects with an identity live in a store, and a value refers to one by its address.
  An attributes object lists its own properties in the order of \<open>Object.keys\<close>; a
  \<open>RenderNode\<close> holds its attributes object (or \<open>undefined\<close>) and its children array by
  reference.
\<close>

type_synonym addr = nat

datatype jsvalue = Prim prim | Ref addr

datatype obj =
    Attributes "(jsstring \<times> prim) list"
  | Array "jsvalue list"
  | TextNode jsstring
  | RenderNode jsstring "addr option" addr

type_synonym heap = "obj list"

definition lookup :: "heap \<Rightarrow> addr \<Rightarrow> obj option" where
  "lookup h a = (if a < length h then Some (h ! a) else None)"

definition alloc :: "heap \<Rightarrow> obj \<Rightarrow> addr \<times> heap" where
  "alloc h ob = (length h, h @ [ob])"

text \<open>
  \<open>StackOverflow\<close>: the recursion went deeper than the call stack (the fuel) allows.
  \<open>InvalidTimeValue\<close>: the RangeError of \<open>toISOString\<close>. \<open>TypeError\<close>: a value has
  no string conversion, or a method is called on \<open>null\<close> or \<open>undefined\<close>.
  \<open>IllTyped\<close>: an address without an object, or an object of a class that the declared
  type of the position excludes; a well-typed caller never gets there.
\<close>

datatype error = StackOverflow | InvalidTimeValue | TypeError | IllTyped

section \<open>Content flattener\<close>

definition instanceof_RenderNode :: "heap \<Rightarrow> jsvalue \<Rightarrow> bool" where
  "instanceof_RenderNode h v =
     (case v of
        Ref a \<Rightarrow> (case lookup h a of Some (RenderNode _ _ _) \<Rightarrow> True | _ \<Rightarrow> False)
      | Prim _ \<Rightarrow> False)"

definition instanceof_TextNode :: "heap \<Rightarrow> jsvalue \<Rightarrow> bool" where
  "instanceof_TextNode h v =
     (case v of
        Ref a \<Rightarrow> (case lookup h a of Some (TextNode _) \<Rightarrow> True | _ \<Rightarrow> False)
      | Prim _ \<Rightarrow> False)"

definition isArray :: "heap \<Rightarrow> jsvalue \<Rightarrow> bool" where
  "isArray h v =
     (case v of
        Ref a \<Rightarrow> (case lookup h a of Some (Array _) \<Rightarrow> True | _ \<Rightarrow> False)
      | Prim _ \<Rightarrow> False)"

text \<open>
  \<open>'' + content\<close> for a content that is neither a node nor an array. A plain object
  converts through \<open>Object.prototype.toString\<close>, unless a property of its own named
  \<open>toString\<close> (never a function here) hides that method.
\<close>

definition concat_empty :: "heap \<Rightarrow> jsvalue \<Rightarrow> error + jsstring" where
  "concat_empty h v =
     (case v of
        Prim p \<Rightarrow> Inr (ToString p)
      | Ref a \<Rightarrow>
          (case lookup h a of
             Some (Attributes kvs) \<Rightarrow>
               (if str ''toString'' \<in> set (map fst kvs) then Inl TypeError
                else Inr (str ''[object Object]''))
           | _ \<Rightarrow> Inl IllTyped))"

text \<open>\<open>results.push(...vs)\<close> on the array at address \<open>results\<close>.\<close>

definition push :: "heap \<Rightarrow> addr \<Rightarrow> jsvalue list \<Rightarrow> heap" where
  "push h results vs =
     (case lookup h results of
        Some (Array ys) \<Rightarrow> h[results := Array (ys @ vs)]
      | _ \<Rightarrow> h)"

definition elements :: "heap \<Rightarrow> addr \<Rightarrow> jsvalue list" where
  "elements h a = (case lookup h a of Some (Array xs) \<Rightarrow> xs | _ \<Rightarrow> [])"

text \<open>
  \<open>flattenContents\<close> allocates \<open>results\<close> and runs the \<open>for\<close> loop over the elements of
  \<open>contents\<close> (no statement of the loop writes to \<open>contents\<close>, so these are the elements
  at entry). The fuel is the depth of call stack left: each nested call takes one.
\<close>

fun flattenContents :: "nat \<Rightarrow> heap \<Rightarrow> addr \<Rightarrow> error + (addr \<times> heap)"
  and flattenContents_loop :: "nat \<Rightarrow> heap \<Rightarrow> addr \<Rightarrow> jsvalue list \<Rightarrow> error + heap"
where
  "flattenContents fuel h contents =
     (case lookup h contents of
        Some (Array xs) \<Rightarrow>
          (let (results, h1) = alloc h (Array [])
           in case flattenContents_loop fuel h1 results xs of
                Inl e \<Rightarrow> Inl e
              | Inr h2 \<Rightarrow> Inr (results, h2))
      | _ \<Rightarrow> Inl IllTyped)"
| "flattenContents_loop fuel h results [] = Inr h"
| "flattenContents_loop fuel h results (content # rest) =
     (if instanceof_RenderNode h content \<or> instanceof_TextNode h content
      then flattenContents_loop fuel (push h results [content]) results rest
      else if isArray h content
      then (case fuel of
              0 \<Rightarrow> Inl StackOverflow
            | Suc fuel' \<Rightarrow>
                (case flattenContents fuel' h (case content of Ref a \<Rightarrow> a | Prim _ \<Rightarrow> 0) of
                   Inl e \<Rightarrow> Inl e
                 | Inr (inner, h1) \<Rightarrow>
                     flattenContents_loop fuel (push h1 results (elements h1 inner)) results rest))
      else (case concat_empty h content of
              Inl e \<Rightarrow> Inl e
            | Inr s \<Rightarrow>
                flattenContents_loop fuel
                  (push h results [Prim (VString (escapeText s))]) results rest))"

section \<open>Serialization\<close>

text \<open>A callback that throws ends \<open>Array.prototype.map\<close> at the first element it fails on.\<close>

fun map_result :: "('a \<Rightarrow> error + 'b) \<Rightarrow> 'a list \<Rightarrow> error + 'b list" where
  "map_result f [] = Inr []"
| "map_result f (x # xs) =
     (case f x of
        Inl e \<Rightarrow> Inl e
      | Inr y \<Rightarrow> (case map_result f xs of Inl e \<Rightarrow> Inl e | Inr ys \<Rightarrow> Inr (y # ys)))"

fun join :: "jsstring \<Rightarrow> jsstring list \<Rightarrow> jsstring" where
  "join sep [] = []"
| "join sep [x] = x"
| "join sep (x # y # ys) = x @ sep @ join sep (y # ys)"

definition attributeToString :: "(jsstring \<times> prim) list \<Rightarrow> jsstring \<Rightarrow> error + jsstring" where
  "attributeToString attributes name =
     (let v = (case map_of attributes name of Some x \<Rightarrow> x | None \<Rightarrow> VUndefined);
          formattedName = toKebabCase name;
          makeAttribute = (\<lambda>s. formattedName @ [0x3D, 0x22] @ s @ [0x22])
      in case v of
           VDate d \<Rightarrow>
             (case iso d of
                None \<Rightarrow> Inl InvalidTimeValue
              | Some s \<Rightarrow> Inr (makeAttribute s))
         | VBoolean b \<Rightarrow> Inr (if b then formattedName else [])
         | VUndefined \<Rightarrow> Inr (makeAttribute (escapeAttrNodeValue []))
         | VNull \<Rightarrow> Inr (makeAttribute (escapeAttrNodeValue []))
         | _ \<Rightarrow> Inr (makeAttribute (escapeAttrNodeValue (ToString v))))"

definition attributesToString :: "heap \<Rightarrow> addr option \<Rightarrow> error + jsstring" where
  "attributesToString h attributes =
     (case attributes of
        None \<Rightarrow> Inr []
      | Some a \<Rightarrow>
          (case lookup h a of
             Some (Attributes kvs) \<Rightarrow>
               (case map_result (attributeToString kvs) (map fst kvs) of
                  Inl e \<Rightarrow> Inl e
                | Inr ss \<Rightarrow> Inr (0x20 # join [0x20] (filter (\<lambda>attribute. length attribute \<noteq> 0) ss)))
           | _ \<Rightarrow> Inl IllTyped))"

definition voidElements :: "jsstring list" where
  "voidElements =
     [str ''area'', str ''base'', str ''br'', str ''col'', str ''command'', str ''embed'',
      str ''hr'', str ''img'', str ''input'', str ''keygen'', str ''link'', str ''meta'',
      str ''param'', str ''source'', str ''track'', str ''wbr'']"

definition isVoidElement :: "jsstring \<Rightarrow> bool" where
  "isVoidElement tagName = (tagName \<in> set voidElements)"

text \<open>
  A child that is not a reference: a string is taken as it is (\<open>typeof child === 'string'\<close>),
  any other value is sent \<open>toString()\<close>.
\<close>

fun method_toString :: "prim \<Rightarrow> error + jsstring" where
  "method_toString (VString s) = Inr s"
| "method_toString VUndefined = Inl TypeError"
| "method_toString VNull = Inl TypeError"
| "method_toString p = Inr (ToString p)"

text \<open>
  \<open>toString\<close> of the object at an address, by the class of the object: \<open>TextNode\<close> or
  \<open>RenderNode\<close>. A child that is a reference is sent \<open>toString()\<close>; each such call takes one
  unit of fuel. The children are rendered before the attributes, as the template
  literal is evaluated after \<open>contents\<close>.
\<close>

fun toString :: "nat \<Rightarrow> heap \<Rightarrow> addr \<Rightarrow> error + jsstring"
  and children_toString :: "nat \<Rightarrow> heap \<Rightarrow> jsvalue list \<Rightarrow> error + jsstring list"
where
  "toString fuel h this =
     (case lookup h this of
        Some (TextNode contents) \<Rightarrow> Inr contents
      | Some (RenderNode tagName attributes children) \<Rightarrow>
          (case lookup h children of
             Some (Array cs) \<Rightarrow>
               (if isVoidElement tagName \<and> length cs = 0
                then (case attributesToString h attributes of
                        Inl e \<Rightarrow> Inl e
                      | Inr as \<Rightarrow> Inr ([0x3C] @ tagName @ as @ [0x3E]))
                else (case (if length cs > 0
                            then (case children_toString fuel h cs of
                                    Inl e \<Rightarrow> Inl e
                                  | Inr ss \<Rightarrow> Inr (join [] ss))
                            else Inr []) of
                        Inl e \<Rightarrow> Inl e
                      | Inr contents \<Rightarrow>
                          (case attributesToString h attributes of
                             Inl e \<Rightarrow> Inl e
                           | Inr as \<Rightarrow>
                               Inr ([0x3C] @ tagName @ as @ [0x3E] @ contents
                                    @ [0x3C, 0x2F] @ tagName @ [0x3E]))))
           | _ \<Rightarrow> Inl IllTyped)
      | _ \<Rightarrow> Inl IllTyped)"
| "children_toString fuel h [] = Inr []"
| "children_toString fuel h (Prim p # rest) =
     (case method_toString p of
        Inl e \<Rightarrow> Inl e
      | Inr s \<Rightarrow>
          (case children_toString fuel h rest of
             Inl e \<Rightarrow> Inl e
           | Inr ss \<Rightarrow> Inr (s # ss)))"
| "children_toString 0 h (Ref a # rest) = Inl StackOverflow"
| "children_toString (Suc fuel) h (Ref a # rest) =
     (case toString fuel h a of
        Inl e \<Rightarrow> Inl e
      | Inr s \<Rightarrow>
          (case children_toString (Suc fuel) h rest of
             Inl e \<Rightarrow> Inl e
           | Inr ss \<Rightarrow> Inr (s # ss)))"

section \<open>Tree builder\<close>

text \<open>
  A custom element handler is any function of the store, the attributes and the array of
  flattened contents; it returns a value and the store it leaves, or throws.
\<close>

type_synonym handler = "heap \<Rightarrow> addr option \<Rightarrow> addr \<Rightarrow> error + (jsvalue \<times> heap)"

datatype name = TagName jsstring | Handler handler

definition dangerousInnerHtml :: jsstring where
  "dangerousInnerHtml = str ''dangerousInnerHtml''"

text \<open>\<open>attributes[key]\<close>: \<open>undefined\<close> when the object has no such property.\<close>

definition get_property :: "(jsstring \<times> prim) list \<Rightarrow> jsstring \<Rightarrow> prim" where
  "get_property kvs key = (case map_of kvs key of Some v \<Rightarrow> v | None \<Rightarrow> VUndefined)"

text \<open>\<open>delete attributes[key]\<close>: the other properties keep their values and their order.\<close>

definition delete_property :: "(jsstring \<times> prim) list \<Rightarrow> jsstring \<Rightarrow> (jsstring \<times> prim) list" where
  "delete_property kvs key = filter (\<lambda>kv. fst kv \<noteq> key) kvs"

text \<open>
  The first statements of \<open>createElement\<close>: the rest parameter \<open>rawContents\<close> is a new
  array of the arguments, and the escape hatch replaces it and deletes the property.
  The result is the store and the address of \<open>contents\<close>.
\<close>

definition escape_hatch :: "heap \<Rightarrow> addr option \<Rightarrow> jsvalue list \<Rightarrow> error + (addr \<times> heap)" where
  "escape_hatch h attributes rawContents =
     (let (contents, h0) = alloc h (Array rawContents)
      in case attributes of
           None \<Rightarrow> Inr (contents, h0)
         | Some a \<Rightarrow>
             (case lookup h0 a of
                Some (Attributes kvs) \<Rightarrow>
                  (if truthy (get_property kvs dangerousInnerHtml)
                   then (let (t, h1) = alloc h0 (TextNode (ToString (get_property kvs dangerousInnerHtml)));
                             (contents', h2) = alloc h1 (Array [Ref t])
                         in Inr (contents', h2[a := Attributes (delete_property kvs dangerousInnerHtml)]))
                   else Inr (contents, h0))
              | _ \<Rightarrow> Inl IllTyped))"

definition createElement ::
    "nat \<Rightarrow> heap \<Rightarrow> name \<Rightarrow> addr option \<Rightarrow> jsvalue list \<Rightarrow> error + (jsvalue \<times> heap)" where
  "createElement fuel h name attributes rawContents =
     (case escape_hatch h attributes rawContents of
        Inl e \<Rightarrow> Inl e
      | Inr (contents, h1) \<Rightarrow>
          (case name of
             Handler f \<Rightarrow>
               (case flattenContents fuel h1 contents of
                  Inl e \<Rightarrow> Inl e
                | Inr (flat, h2) \<Rightarrow> f h2 attributes flat)
           | TagName n \<Rightarrow>
               (let tagName = toKebabCase n
                in case flattenContents fuel h1 contents of
                     Inl e \<Rightarrow> Inl e
                   | Inr (flat, h2) \<Rightarrow>
                       (let (node, h3) = alloc h2 (RenderNode tagName attributes flat)
                        in Inr (Ref node, h3)))))"

section \<open>Specification\<close>

text \<open>
  The escapes as the specification words them: one replacement per code unit, decided by
  the unit alone.
\<close>

definition attr_escape_unit :: "code_unit \<Rightarrow> jsstring" where
  "attr_escape_unit c =
     (if c = 0x26 then str ''&amp;''
      else if c = 0x22 then str ''&quot;''
      else if c = 0xA0 then str ''&nbsp;''
      else [c])"

definition text_escape_unit :: "code_unit \<Rightarrow> jsstring" where
  "text_escape_unit c =
     (if c = 0x26 then str ''&amp;''
      else if c = 0x3C then str ''&lt;''
      else if c = 0x3E then str ''&gt;''
      else if c = 0x22 then str ''&quot;''
      else [c])"

text \<open>
  A unit of a name has a neighbour that is not an uppercase letter; the positions before
  the first and after the last unit count as uppercase.
\<close>

definition has_lower_neighbour :: "jsstring \<Rightarrow> nat \<Rightarrow> bool" where
  "has_lower_neighbour s i =
     ((0 < i \<and> \<not> isUpper s (i - 1)) \<or> (i + 1 < length s \<and> \<not> isUpper s (i + 1)))"

text \<open>
  \<open>extends h h'\<close>: every object of the store \<open>h\<close> is in \<open>h'\<close> at its address and
  unchanged; \<open>h'\<close> may hold new objects.
\<close>

definition extends :: "heap \<Rightarrow> heap \<Rightarrow> bool" where
  "extends h h' = (take (length h) h' = h)"

text \<open>
  What a run of the loop of \<open>flattenContents\<close> may change: the array \<open>results\<close> grows at
  its end, and objects are added to the store.
\<close>

definition loop_frame :: "heap \<Rightarrow> addr \<Rightarrow> heap \<Rightarrow> bool" where
  "loop_frame h results h' =
     (length h \<le> length h' \<and> (\<forall>b < length h. b \<noteq> results \<longrightarrow> h' ! b = h ! b) \<and>
      (\<forall>ys. lookup h results = Some (Array ys) \<longrightarrow>
         (\<exists>zs. lookup h' results = Some (Array (ys @ zs)))))"

text \<open>
  The flattening of a sequence, as the specification describes it: depth first and left
  to right, a node is passed through as the reference it is, a nested sequence is
  replaced by its own flattening, and any other value becomes its escaped string.
  \<open>flat_spec h n xs ys\<close>: the sequence \<open>xs\<close>, nested at most \<open>n\<close> deep in the store \<open>h\<close>,
  flattens to \<open>ys\<close>.
\<close>

inductive flat_spec :: "heap \<Rightarrow> nat \<Rightarrow> jsvalue list \<Rightarrow> jsvalue list \<Rightarrow> bool" for h :: heap where
  flat_Nil: "flat_spec h n [] []"
| flat_Node: "instanceof_RenderNode h c \<or> instanceof_TextNode h c \<Longrightarrow> flat_spec h n cs ys
     \<Longrightarrow> flat_spec h n (c # cs) (c # ys)"
| flat_Nested: "lookup h a = Some (Array xs) \<Longrightarrow> flat_spec h n xs zs \<Longrightarrow> flat_spec h (Suc n) cs ys
     \<Longrightarrow> flat_spec h (Suc n) (Ref a # cs) (zs @ ys)"
| flat_Other: "\<not> instanceof_RenderNode h c \<Longrightarrow> \<not> instanceof_TextNode h c \<Longrightarrow> \<not> isArray h c
     \<Longrightarrow> concat_empty h c = Inr s \<Longrightarrow> flat_spec h n cs ys
     \<Longrightarrow> flat_spec h n (c # cs) (Prim (VString (concat (map text_escape_unit s))) # ys)"

text \<open>
  An attribute is emitted unless it is a boolean that is false (or a true boolean whose
  name is empty, which renders as the empty string).
\<close>

definition emitted :: "(jsstring \<times> prim) list \<Rightarrow> jsstring \<Rightarrow> bool" where
  "emitted kvs name =
     (case get_property kvs name of
        VBoolean b \<Rightarrow> b \<and> name \<noteq> []
      | _ \<Rightarrow> True)"

text \<open>
  \<open>attributes_ok\<close>: the attributes argument is \<open>undefined\<close> or refers to an attributes
  object. \<open>hatch_taken\<close>: that object binds \<open>dangerousInnerHtml\<close> to a truthy value.
\<close>

definition attributes_ok :: "heap \<Rightarrow> addr option \<Rightarrow> bool" where
  "attributes_ok h attributes =
     (case attributes of
        None \<Rightarrow> True
      | Some a \<Rightarrow> (case lookup h a of Some (Attributes _) \<Rightarrow> True | _ \<Rightarrow> False))"

definition hatch_taken :: "heap \<Rightarrow> addr option \<Rightarrow> bool" where
  "hatch_taken h attributes =
     (case attributes of
        None \<Rightarrow> False
      | Some a \<Rightarrow>
          (case lookup h a of
             Some (Attributes kvs) \<Rightarrow> truthy (get_property kvs dangerousInnerHtml)
           | _ \<Rightarrow> False))"

text \<open>Stores used as examples.\<close>

definition amp_heap :: heap where
  "amp_heap =
     [Array [Prim (VString [0x26, 0x3C, 0x3E, 0x22]), Prim (VNumber (Num 5)), Prim VUndefined]]"

definition nested_heap :: heap where
  "nested_heap =
     [TextNode (str ''<i>''),
      Array [Ref 0, Prim (VNumber (Num 5)), Ref 2],
      Array [Prim VNull, Ref 0],
      Array [Ref 1, Prim (VBoolean False), Ref 0]]"

text \<open>A handler that leaves a mark in the store each time it is called.\<close>

definition marking_handler :: handler where
  "marking_handler h attributes contents = Inr (Ref contents, h @ [TextNode (str ''called'')])"

definition hatch_heap :: heap where
  "hatch_heap =
     [Attributes [(dangerousInnerHtml, VString (str ''<b>x</b>'')), (str ''hidden'', VBoolean True)]]"

definition falsy_heap :: heap where
  "falsy_heap = [Attributes [(dangerousInnerHtml, VNumber (Num 0))]]"

definition empty_hatch_heap :: heap where
  "empty_hatch_heap = [Attributes [(dangerousInnerHtml, VString [])]]"

definition img_heap :: heap where
  "img_heap = [Array [], Array [], RenderNode (str ''img'') None 1]"

definition img_child_heap :: heap where
  "img_child_heap =
     [Array [Prim (VString (str ''x''))], Array [Prim (VString (str ''x''))],
      RenderNode (str ''img'') None 1]"

definition disabled_heap :: "bool \<Rightarrow> heap" where
  "disabled_heap b = [Attributes [(str ''disabled'', VBoolean b)]]"

definition two_flags_heap :: heap where
  "two_flags_heap =
     [Attributes [(str ''hidden'', VBoolean False), (str ''disabled'', VBoolean True),
                  (str ''checked'', VBoolean False), (str ''required'', VBoolean True)]]"

definition false_hatch_heap :: heap where
  "false_hatch_heap =
     [Attributes [(dangerousInnerHtml, VBoolean False), (str ''hidden'', VBoolean True)]]"

declare toKebabCase_loop.simps [simp del] nat_digits.simps [simp del]
declare flattenContents.simps [simp del] flattenContents_loop.simps [simp del]
declare toString.simps [simp del] children_toString.simps [simp del]

section \<open>The escapes\<close>

lemma replace_global_concat:
  "replace_global p f s = concat (map (\<lambda>c. case p c of None \<Rightarrow> [c] | Some m \<Rightarrow> f m) s)"
  by (induction s) (auto split: option.splits)

lemma replace_unit_concat:
  "replace_unit c r s = concat (map (\<lambda>x. if x = c then r else [x]) s)"
  unfolding replace_unit_def replace_global_concat
  by (rule arg_cong [where f = concat]) (rule map_cong, auto)

lemma replace_unit_Nil: "replace_unit c r [] = []"
  by (simp add: replace_unit_def)

lemma replace_unit_append:
  "replace_unit c r (xs @ ys) = replace_unit c r xs @ replace_unit c r ys"
  by (simp add: replace_unit_concat)

lemma replace_unit_Cons:
  "replace_unit c r (x # xs) = (if x = c then r else [x]) @ replace_unit c r xs"
  by (simp add: replace_unit_concat)

lemma escapeText_Nil: "escapeText [] = []"
  by (simp add: escapeText_def replace_unit_Nil)

lemma escapeText_append: "escapeText (xs @ ys) = escapeText xs @ escapeText ys"
  by (simp add: escapeText_def replace_unit_append)

lemma escapeText_single: "escapeText [c] = text_escape_unit c"
  by (simp add: escapeText_def replace_unit_Cons replace_unit_Nil text_escape_unit_def str_def)

lemma escapeText_concat: "escapeText s = concat (map text_escape_unit s)"
proof (induction s)
  case Nil
  show ?case by (simp add: escapeText_Nil)
next
  case (Cons c s)
  have "escapeText (c # s) = escapeText ([c] @ s)" by simp
  also have "\<dots> = text_escape_unit c @ escapeText s"
    by (simp only: escapeText_append escapeText_single)
  finally show ?case by (simp add: Cons.IH)
qed


section \<open>The name transformer\<close>

lemma toKebabCase_loop_eq:
  "toKebabCase_loop s i acc = acc @ concat (map (kebab_step s) [i..<length s])"
proof (induction s i acc rule: toKebabCase_loop.induct)
  case (1 s i acc)
  show ?case
  proof (cases "i < length s")
    case True
    then have "[i..<length s] = i # [i + 1..<length s]"
      by (simp add: upt_conv_Cons)
    with True 1 show ?thesis
      by (subst toKebabCase_loop.simps) simp
  next
    case False
    then show ?thesis by (subst toKebabCase_loop.simps) simp
  qed
qed

lemma toKebabCase_eq: "toKebabCase s = concat (map (kebab_step s) [0..<length s])"
  by (simp add: toKebabCase_def toKebabCase_loop_eq)


section \<open>The store\<close>

lemma extends_iff: "extends h h' \<longleftrightarrow> (\<exists>ext. h' = h @ ext)"
proof
  assume "extends h h'"
  then have "h' = h @ drop (length h) h'"
    unfolding extends_def by (metis append_take_drop_id)
  then show "\<exists>ext. h' = h @ ext" ..
next
  assume "\<exists>ext. h' = h @ ext"
  then show "extends h h'" by (auto simp: extends_def)
qed

lemma extends_length: "extends h h' \<Longrightarrow> length h \<le> length h'"
  by (auto simp: extends_iff)

lemma extends_nth: "extends h h' \<Longrightarrow> b < length h \<Longrightarrow> h' ! b = h ! b"
  by (auto simp: extends_iff nth_append)

lemma extendsI:
  assumes "length h \<le> length h'" and "\<And>b. b < length h \<Longrightarrow> h' ! b = h ! b"
  shows "extends h h'"
  unfolding extends_def using assms by (intro nth_equalityI) auto

lemma extends_trans: "extends h h' \<Longrightarrow> extends h' h'' \<Longrightarrow> extends h h''"
  by (auto simp: extends_iff)

lemma extends_lookup: "extends h h' \<Longrightarrow> lookup h a = Some ob \<Longrightarrow> lookup h' a = Some ob"
  by (auto simp: lookup_def extends_nth split: if_splits dest: extends_length)

lemma extends_append: "extends h (h @ ext)"
  by (simp add: extends_def)

lemma length_push: "length (push h r vs) = length h"
  by (simp add: push_def split: option.splits obj.splits)

lemma nth_push_other: "b \<noteq> r \<Longrightarrow> push h r vs ! b = h ! b"
  by (simp add: push_def split: option.splits obj.splits)

lemma lookup_push_same:
  "lookup h r = Some (Array ys) \<Longrightarrow> lookup (push h r vs) r = Some (Array (ys @ vs))"
  by (auto simp: push_def lookup_def split: if_splits)

lemma extends_push: "extends h0 h \<Longrightarrow> length h0 \<le> r \<Longrightarrow> extends h0 (push h r vs)"
  by (rule extendsI) (auto simp: length_push nth_push_other extends_nth dest: extends_length)

lemma lookup_alloc_new: "lookup (h @ [ob]) (length h) = Some ob"
  by (simp add: lookup_def)

lemma lookup_append_old: "a < length h \<Longrightarrow> lookup (h @ ext) a = lookup h a"
  by (simp add: lookup_def nth_append)

lemma lookup_Some_less: "lookup h a = Some ob \<Longrightarrow> a < length h"
  by (simp add: lookup_def split: if_splits)

lemma loop_frame_refl: "loop_frame h results h"
  by (simp add: loop_frame_def)

lemma loop_frame_push: "loop_frame (push h results vs) results h' \<Longrightarrow> loop_frame h results h'"
proof -
  assume a: "loop_frame (push h results vs) results h'"
  have "\<exists>zs. lookup h' results = Some (Array (ys @ zs))"
    if "lookup h results = Some (Array ys)" for ys
  proof -
    from that have "lookup (push h results vs) results = Some (Array (ys @ vs))"
      by (rule lookup_push_same)
    with a obtain zs where "lookup h' results = Some (Array ((ys @ vs) @ zs))"
      unfolding loop_frame_def by blast
    then show ?thesis by auto
  qed
  with a show ?thesis
    unfolding loop_frame_def by (auto simp: length_push nth_push_other)
qed

lemma loop_frame_nested:
  assumes inner: "length h < length h1" "\<forall>b < length h. h1 ! b = h ! b"
    and rest: "loop_frame (push h1 results vs) results h'"
  shows "loop_frame h results h'"
proof -
  have "loop_frame h1 results h'" using rest by (rule loop_frame_push)
  then show ?thesis
    using inner unfolding loop_frame_def
    by (auto simp: lookup_def split: if_splits)
qed

section \<open>The frame of the flattener\<close>

lemma flatten_frame:
  "(\<forall>r h'. flattenContents fuel h contents = Inr (r, h') \<longrightarrow>
      r = length h \<and> length h < length h' \<and> (\<forall>b < length h. h' ! b = h ! b) \<and>
      (\<exists>ys. lookup h' r = Some (Array ys)))"
  "(\<forall>h'. flattenContents_loop fuel h results cs = Inr h' \<longrightarrow> loop_frame h results h')"
proof (induction fuel h contents and fuel h results cs rule: flattenContents_flattenContents_loop.induct)
  case (1 fuel h contents)
  show ?case
  proof (intro allI impI)
    fix r h'
    assume run: "flattenContents fuel h contents = Inr (r, h')"
    then obtain xs where xs: "lookup h contents = Some (Array xs)"
      by (auto simp: flattenContents.simps split: option.splits obj.splits)
    from run xs have loop: "flattenContents_loop fuel (h @ [Array []]) (length h) xs = Inr h'"
      and r: "r = length h"
      by (auto simp: flattenContents.simps alloc_def split: sum.splits)
    note IH = "1.IH" [OF xs refl refl, unfolded alloc_def, OF refl]
    from IH loop have "loop_frame (h @ [Array []]) (length h) h'" by blast
    then show "r = length h \<and> length h < length h' \<and> (\<forall>b < length h. h' ! b = h ! b) \<and>
      (\<exists>ys. lookup h' r = Some (Array ys))"
      using r unfolding loop_frame_def by (auto simp: lookup_alloc_new nth_append)
  qed
next
  case (2 fuel h results)
  show ?case by (simp add: flattenContents_loop.simps loop_frame_refl)
next
  case (3 fuel h results content rest)
  show ?case
  proof (intro allI impI)
    fix h'
    assume run: "flattenContents_loop fuel h results (content # rest) = Inr h'"
    consider (node) "instanceof_RenderNode h content \<or> instanceof_TextNode h content"
      | (array) "\<not> (instanceof_RenderNode h content \<or> instanceof_TextNode h content)"
          "isArray h content"
      | (other) "\<not> (instanceof_RenderNode h content \<or> instanceof_TextNode h content)"
          "\<not> isArray h content"
      by blast
    then show "loop_frame h results h'"
    proof cases
      case node
      with run have "flattenContents_loop fuel (push h results [content]) results rest = Inr h'"
        by (simp add: flattenContents_loop.simps)
      with "3.IH"(1) [OF node] have "loop_frame (push h results [content]) results h'" by blast
      then show ?thesis by (rule loop_frame_push)
    next
      case array
      with run obtain fuel' where fuel: "fuel = Suc fuel'"
        by (cases fuel) (auto simp: flattenContents_loop.simps)
      let ?a = "case content of Prim x \<Rightarrow> 0 | Ref a \<Rightarrow> a"
      from run array fuel obtain inner h1 where
        inner: "flattenContents fuel' h ?a = Inr (inner, h1)"
        and rest: "flattenContents_loop fuel (push h1 results (elements h1 inner)) results rest = Inr h'"
        by (auto simp: flattenContents_loop.simps split: sum.splits)
      from "3.IH"(2) [OF array fuel] inner
      have f1: "length h < length h1" "\<forall>b < length h. h1 ! b = h ! b" by blast+
      from "3.IH"(3) [OF array fuel inner refl] rest
      have "loop_frame (push h1 results (elements h1 inner)) results h'" by blast
      with f1 show ?thesis by (rule loop_frame_nested)
    next
      case other
      with run obtain s where s: "concat_empty h content = Inr s"
        and rest: "flattenContents_loop fuel (push h results [Prim (VString (escapeText s))]) results rest = Inr h'"
        by (auto simp: flattenContents_loop.simps split: sum.splits)
      from "3.IH"(4) [OF other s] rest
      have "loop_frame (push h results [Prim (VString (escapeText s))]) results h'" by blast
      then show ?thesis by (rule loop_frame_push)
    qed
  qed
qed


lemma flattenContents_frame:
  assumes "flattenContents fuel h contents = Inr (r, h')"
  shows "r = length h" and "length h < length h'" and "extends h h'"
    and "\<exists>ys. lookup h' r = Some (Array ys)"
proof -
  from flatten_frame(1) [of fuel h contents] assms
  have *: "r = length h \<and> length h < length h' \<and> (\<forall>b < length h. h' ! b = h ! b) \<and>
      (\<exists>ys. lookup h' r = Some (Array ys))" by blast
  then show "r = length h" "length h < length h'" "\<exists>ys. lookup h' r = Some (Array ys)"
    by blast+
  from * show "extends h h'" by (intro extendsI) auto
qed

lemma extends_instanceof_RenderNode:
  "extends h0 h \<Longrightarrow> instanceof_RenderNode h0 c \<Longrightarrow> instanceof_RenderNode h c"
  unfolding instanceof_RenderNode_def
  by (auto split: jsvalue.splits option.splits obj.splits dest: extends_lookup)

lemma extends_instanceof_TextNode:
  "extends h0 h \<Longrightarrow> instanceof_TextNode h0 c \<Longrightarrow> instanceof_TextNode h c"
  unfolding instanceof_TextNode_def
  by (auto split: jsvalue.splits option.splits obj.splits dest: extends_lookup)

lemma extends_other:
  assumes "extends h0 h" and "concat_empty h0 c = Inr s"
  shows "\<not> instanceof_RenderNode h c" and "\<not> instanceof_TextNode h c" and "\<not> isArray h c"
    and "concat_empty h c = Inr s"
proof -
  consider p where "c = Prim p"
    | a kvs where "c = Ref a" "lookup h0 a = Some (Attributes kvs)"
    using assms(2)
    by (cases c) (auto simp: concat_empty_def split: option.splits obj.splits)
  then have "\<not> instanceof_RenderNode h c \<and> \<not> instanceof_TextNode h c \<and> \<not> isArray h c
    \<and> concat_empty h c = Inr s"
  proof cases
    case 1
    with assms(2) show ?thesis
      by (simp add: instanceof_RenderNode_def instanceof_TextNode_def isArray_def concat_empty_def)
  next
    case 2
    from extends_lookup [OF assms(1) 2(2)] 2 assms(2) show ?thesis
      by (simp add: instanceof_RenderNode_def instanceof_TextNode_def isArray_def concat_empty_def)
  qed
  then show "\<not> instanceof_RenderNode h c" "\<not> instanceof_TextNode h c" "\<not> isArray h c"
    "concat_empty h c = Inr s" by blast+
qed

lemma array_not_node:
  assumes "lookup h a = Some (Array xs)"
  shows "\<not> instanceof_RenderNode h (Ref a)" "\<not> instanceof_TextNode h (Ref a)" "isArray h (Ref a)"
  using assms by (simp_all add: instanceof_RenderNode_def instanceof_TextNode_def isArray_def)

section \<open>The flattener against its specification\<close>

lemma flat_spec_extends:
  assumes "flat_spec h n xs ys" and "extends h h1"
  shows "flat_spec h1 n xs ys"
  using assms
proof (induction rule: flat_spec.induct)
  case (flat_Nil n)
  show ?case by (rule flat_spec.flat_Nil)
next
  case (flat_Node c n cs ys)
  then show ?case
    by (auto intro!: flat_spec.flat_Node
             intro: extends_instanceof_RenderNode extends_instanceof_TextNode)
next
  case (flat_Nested a xs n zs cs ys)
  then show ?case
    by (auto intro!: flat_spec.flat_Nested dest: extends_lookup)
next
  case (flat_Other c s n cs ys)
  from extends_other [OF flat_Other.prems flat_Other.hyps(4)] flat_Other.IH flat_Other.prems
  show ?case by (auto intro!: flat_spec.flat_Other)
qed

lemma flatten_loop_complete:
  assumes "flat_spec h0 n cs ys"
  shows "\<forall>m\<ge>n. \<forall>h results acc.
           extends h0 h \<longrightarrow> length h0 \<le> results \<longrightarrow> lookup h results = Some (Array acc) \<longrightarrow>
           (\<exists>h'. flattenContents_loop m h results cs = Inr h' \<and>
                 lookup h' results = Some (Array (acc @ ys)))"
  using assms
proof (induction rule: flat_spec.induct)
  case (flat_Nil n)
  show ?case by (simp add: flattenContents_loop.simps)
next
  case (flat_Node c n cs ys)
  note IH = flat_Node.IH
  show ?case
  proof (intro allI impI)
    fix m h results acc
    assume m: "n \<le> m" and ext: "extends h0 h" and res: "length h0 \<le> results"
      and acc: "lookup h results = Some (Array acc)"
    from flat_Node.hyps(1) ext have node: "instanceof_RenderNode h c \<or> instanceof_TextNode h c"
      by (auto intro: extends_instanceof_RenderNode extends_instanceof_TextNode)
    have "extends h0 (push h results [c])" using ext res by (rule extends_push)
    moreover have "lookup (push h results [c]) results = Some (Array (acc @ [c]))"
      using acc by (rule lookup_push_same)
    ultimately obtain h' where "flattenContents_loop m (push h results [c]) results cs = Inr h'"
      "lookup h' results = Some (Array ((acc @ [c]) @ ys))"
      using IH m res by blast
    with node show "\<exists>h'. flattenContents_loop m h results (c # cs) = Inr h' \<and>
                 lookup h' results = Some (Array (acc @ c # ys))"
      by (simp add: flattenContents_loop.simps)
  qed
next
  case (flat_Nested a xs n zs cs ys)
  note n1 = flat_Nested.IH(1) and n2 = flat_Nested.IH(2)
  show ?case
  proof (intro allI impI)
    fix m h results acc
    assume m: "Suc n \<le> m" and ext: "extends h0 h" and res: "length h0 \<le> results"
      and acc: "lookup h results = Some (Array acc)"
    from m obtain m' where m': "m = Suc m'" "n \<le> m'"
      by (cases m) auto
    from ext flat_Nested.hyps(1) have a: "lookup h a = Some (Array xs)"
      by (rule extends_lookup)
    let ?h1 = "h @ [Array []]"
    have "extends h0 ?h1" using ext extends_append by (rule extends_trans)
    moreover have "length h0 \<le> length h" using ext by (rule extends_length)
    moreover have "lookup ?h1 (length h) = Some (Array [])" by (rule lookup_alloc_new)
    ultimately obtain h2 where h2: "flattenContents_loop m' ?h1 (length h) xs = Inr h2"
      "lookup h2 (length h) = Some (Array ([] @ zs))"
      using n1 m'(2) by blast
    have inner: "flattenContents m' h a = Inr (length h, h2)"
      using a h2(1) by (simp add: flattenContents.simps alloc_def)
    have el: "elements h2 (length h) = zs" using h2(2) by (simp add: elements_def)
    from flattenContents_frame [OF inner] have ext2: "extends h h2" by blast
    have acc2: "lookup h2 results = Some (Array acc)"
      using ext2 acc by (rule extends_lookup)
    have "extends h0 h2" using ext ext2 by (rule extends_trans)
    then have "extends h0 (push h2 results zs)" using res by (rule extends_push)
    moreover have "lookup (push h2 results zs) results = Some (Array (acc @ zs))"
      using acc2 by (rule lookup_push_same)
    ultimately obtain h' where h': "flattenContents_loop m (push h2 results zs) results cs = Inr h'"
      "lookup h' results = Some (Array ((acc @ zs) @ ys))"
      using n2 m res by blast
    from array_not_node [OF a] inner el h' m'(1)
    show "\<exists>h'. flattenContents_loop m h results (Ref a # cs) = Inr h' \<and>
                 lookup h' results = Some (Array (acc @ zs @ ys))"
      by (simp add: flattenContents_loop.simps)
  qed
next
  case (flat_Other c s n cs ys)
  note IH = flat_Other.IH
  show ?case
  proof (intro allI impI)
    fix m h results acc
    assume m: "n \<le> m" and ext: "extends h0 h" and res: "length h0 \<le> results"
      and acc: "lookup h results = Some (Array acc)"
    note other = extends_other [OF ext flat_Other.hyps(4)]
    let ?v = "Prim (VString (escapeText s))"
    have "extends h0 (push h results [?v])" using ext res by (rule extends_push)
    moreover have "lookup (push h results [?v]) results = Some (Array (acc @ [?v]))"
      using acc by (rule lookup_push_same)
    ultimately obtain h' where "flattenContents_loop m (push h results [?v]) results cs = Inr h'"
      "lookup h' results = Some (Array ((acc @ [?v]) @ ys))"
      using IH m res by blast
    with other show "\<exists>h'. flattenContents_loop m h results (c # cs) = Inr h' \<and>
                 lookup h' results = Some (Array (acc @ Prim (VString (concat (map text_escape_unit s))) # ys))"
      by (simp add: flattenContents_loop.simps escapeText_concat)
  qed
qed

lemma flattenContents_complete:
  assumes a: "lookup h contents = Some (Array xs)" and spec: "flat_spec h n xs ys"
    and m: "n \<le> m"
  shows "\<exists>h'. flattenContents m h contents = Inr (length h, h') \<and>
           lookup h' (length h) = Some (Array ys) \<and> extends h h'"
proof -
  have "extends h (h @ [Array []])" by (rule extends_append)
  moreover have "lookup (h @ [Array []]) (length h) = Some (Array [])" by (rule lookup_alloc_new)
  ultimately obtain h' where h': "flattenContents_loop m (h @ [Array []]) (length h) xs = Inr h'"
    "lookup h' (length h) = Some (Array ([] @ ys))"
    using flatten_loop_complete [OF spec] m by blast
  with a have run: "flattenContents m h contents = Inr (length h, h')"
    by (simp add: flattenContents.simps alloc_def)
  from flattenContents_frame(3) [OF run] run h'(2)
  show ?thesis by auto
qed

lemma flat_NestedI:
  assumes "lookup h a = Some (Array xs)" and "flat_spec h n xs zs"
    and "flat_spec h (Suc n) cs ys" and "ws = zs @ ys"
  shows "flat_spec h (Suc n) (Ref a # cs) ws"
  using assms by (simp add: flat_spec.flat_Nested)

lemma flat_PrimI:
  assumes "flat_spec h n cs ys" and "v = Prim (VString (concat (map text_escape_unit (ToString p))))"
  shows "flat_spec h n (Prim p # cs) (v # ys)"
  using assms
  by (simp add: flat_spec.flat_Other instanceof_RenderNode_def instanceof_TextNode_def
      isArray_def concat_empty_def)

lemma flat_TextNodeI:
  assumes "lookup h a = Some (TextNode s)" and "flat_spec h n cs ys"
  shows "flat_spec h n (Ref a # cs) (Ref a # ys)"
  using assms by (simp add: flat_spec.flat_Node instanceof_TextNode_def)

lemma leaves_flat_spec:
  assumes "\<forall>c\<in>set xs. \<not> instanceof_RenderNode h c \<and> \<not> instanceof_TextNode h c \<and> \<not> isArray h c"
    and "map_result (concat_empty h) xs = Inr ss"
  shows "flat_spec h 0 xs (map (\<lambda>s. Prim (VString (concat (map text_escape_unit s)))) ss)"
  using assms
proof (induction xs arbitrary: ss)
  case Nil
  then show ?case by (simp add: flat_spec.flat_Nil)
next
  case (Cons c cs)
  from Cons.prems(2) obtain s ss' where s: "concat_empty h c = Inr s"
    and ss': "map_result (concat_empty h) cs = Inr ss'" and ss: "ss = s # ss'"
    by (auto split: sum.splits)
  from Cons.prems(1) have "flat_spec h 0 cs (map (\<lambda>s. Prim (VString (concat (map text_escape_unit s)))) ss')"
    by (intro Cons.IH ss') simp
  with Cons.prems(1) s show ?case
    unfolding ss by (simp add: flat_spec.flat_Other)
qed

section \<open>The name transformer, unit by unit\<close>

lemma isUpper_iff: "isUpper s i \<longleftrightarrow> i < length s \<and> 0x41 \<le> s ! i \<and> s ! i \<le> 0x5A"
  by (simp add: isUpper_def capitalACharCode_def capitalZCharCode_def)

lemma kebab_step_eq:
  assumes "i < length s"
  shows "kebab_step s i =
     (if isUpper s i \<and> has_lower_neighbour s i then [0x2D, s ! i + 0x20] else [s ! i])"
proof -
  have "i < length s - 1 \<longleftrightarrow> i + 1 < length s" using assms by auto
  then show ?thesis
    unfolding kebab_step_def has_lower_neighbour_def Let_def
    by (auto simp: toLowerCase_unit_def isUpper_def)
qed

lemma toKebabCase_units:
  "toKebabCase s = concat (map (\<lambda>i. if isUpper s i \<and> has_lower_neighbour s i
       then [0x2D, s ! i + 0x20] else [s ! i]) [0..<length s])"
  unfolding toKebabCase_eq
  by (rule arg_cong [where f = concat], rule map_cong) (simp_all add: kebab_step_eq)

lemma shifted_not_upper:
  fixes c :: code_unit
  assumes "0x41 \<le> c" and "c \<le> 0x5A"
  shows "\<not> (0x41 \<le> c + 0x20 \<and> c + 0x20 \<le> 0x5A)"
  using assms by (auto simp: word_le_nat_alt unat_word_ariths)

lemma toKebabCase_no_upper:
  assumes "\<forall>i<length s. isUpper s i \<longrightarrow> has_lower_neighbour s i"
  shows "\<forall>j<length (toKebabCase s). \<not> isUpper (toKebabCase s) j"
proof -
  have "\<not> (0x41 \<le> c \<and> c \<le> 0x5A)" if "c \<in> set (toKebabCase s)" for c
  proof -
    let ?f = "\<lambda>i. if isUpper s i \<and> has_lower_neighbour s i
         then [0x2D, s ! i + 0x20] else [s ! i]"
    from that have "c \<in> \<Union> (set ` (?f ` set [0..<length s]))"
      unfolding toKebabCase_units by (simp only: set_concat set_map)
    then obtain i where i: "i < length s" and c: "c \<in> set (?f i)"
      by (auto simp only: UN_iff image_iff set_upt atLeastLessThan_iff)
    show ?thesis
    proof (cases "isUpper s i")
      case True
      with assms i have "has_lower_neighbour s i" by blast
      with True c have "c = 0x2D \<or> c = s ! i + 0x20" by auto
      then show ?thesis
      proof
        assume "c = 0x2D" then show ?thesis by simp
      next
        assume "c = s ! i + 0x20"
        with True show ?thesis by (simp only: isUpper_iff shifted_not_upper not_False_eq_True)
      qed
    next
      case False
      with c i have "c = s ! i" by auto
      with False i show ?thesis by (simp add: isUpper_iff)
    qed
  qed
  then show ?thesis by (auto simp: isUpper_iff)
qed

section \<open>The tree builder\<close>

lemma createElement_TagName:
  "createElement fuel h (TagName s) attributes raw =
     (case escape_hatch h attributes raw of
        Inl e \<Rightarrow> Inl e
      | Inr (contents, h1) \<Rightarrow>
          (case flattenContents fuel h1 contents of
             Inl e \<Rightarrow> Inl e
           | Inr (flat, h2) \<Rightarrow>
               Inr (Ref (length h2), h2 @ [RenderNode (toKebabCase s) attributes flat])))"
  by (simp add: createElement_def alloc_def split: sum.splits prod.splits)

lemma createElement_Handler:
  "createElement fuel h (Handler f) attributes raw =
     (case escape_hatch h attributes raw of
        Inl e \<Rightarrow> Inl e
      | Inr (contents, h1) \<Rightarrow>
          (case flattenContents fuel h1 contents of
             Inl e \<Rightarrow> Inl e
           | Inr (flat, h2) \<Rightarrow> f h2 attributes flat))"
  by (simp add: createElement_def split: sum.splits prod.splits)

lemma createElement_TagName_node:
  assumes "createElement fuel h (TagName s) attributes rawContents = Inr (v, h')"
  shows "\<exists>node c. v = Ref node \<and> lookup h' node = Some (RenderNode (toKebabCase s) attributes c)"
proof -
  from assms obtain flat h2 where "v = Ref (length h2)"
    "h' = h2 @ [RenderNode (toKebabCase s) attributes flat]"
    unfolding createElement_TagName by (auto split: sum.splits prod.splits)
  then show ?thesis by (auto simp: lookup_alloc_new)
qed

lemma escape_hatch_None: "escape_hatch h None raw = Inr (length h, h @ [Array raw])"
  by (simp add: escape_hatch_def alloc_def)

lemma escape_hatch_falsy:
  assumes "lookup h a = Some (Attributes kvs)" and "\<not> truthy (get_property kvs dangerousInnerHtml)"
  shows "escape_hatch h (Some a) raw = Inr (length h, h @ [Array raw])"
proof -
  from assms(1) have "lookup (h @ [Array raw]) a = Some (Attributes kvs)"
    by (simp add: lookup_append_old lookup_Some_less)
  with assms(2) show ?thesis by (simp add: escape_hatch_def alloc_def)
qed

lemma escape_hatch_truthy:
  assumes "lookup h a = Some (Attributes kvs)" and "truthy (get_property kvs dangerousInnerHtml)"
  shows "escape_hatch h (Some a) raw =
     Inr (length h + 2,
          (h @ [Array raw, TextNode (ToString (get_property kvs dangerousInnerHtml)),
                Array [Ref (length h + 1)]])
          [a := Attributes (delete_property kvs dangerousInnerHtml)])"
proof -
  from assms(1) have "lookup (h @ [Array raw]) a = Some (Attributes kvs)"
    by (simp add: lookup_append_old lookup_Some_less)
  with assms(2) show ?thesis by (simp add: escape_hatch_def alloc_def)
qed

lemma escape_hatch_cases:
  assumes "escape_hatch h attributes raw = Inr (contents, h1)"
  shows "(contents = length h \<and> h1 = h @ [Array raw]) \<or>
     (\<exists>a kvs. attributes = Some a \<and> lookup h a = Some (Attributes kvs) \<and>
        truthy (get_property kvs dangerousInnerHtml) \<and> contents = length h + 2 \<and>
        h1 = (h @ [Array raw, TextNode (ToString (get_property kvs dangerousInnerHtml)),
                Array [Ref (length h + 1)]])
          [a := Attributes (delete_property kvs dangerousInnerHtml)])"
proof (cases attributes)
  case None
  with assms show ?thesis by (simp add: escape_hatch_None)
next
  case (Some a)
  with assms obtain kvs where kvs: "lookup (h @ [Array raw]) a = Some (Attributes kvs)"
    by (auto simp: escape_hatch_def alloc_def split: option.splits obj.splits)
  show ?thesis
  proof (cases "a < length h")
    case True
    with kvs have l: "lookup h a = Some (Attributes kvs)" by (simp add: lookup_append_old)
    show ?thesis
    proof (cases "truthy (get_property kvs dangerousInnerHtml)")
      case True
      from escape_hatch_truthy [OF l True, of raw] assms Some l True show ?thesis by auto
    next
      case False
      from escape_hatch_falsy [OF l False, of raw] assms Some show ?thesis by auto
    qed
  next
    case False
    with kvs show ?thesis by (auto simp: lookup_def nth_append split: if_splits)
  qed
qed

lemma delete_property_other:
  "k \<noteq> key \<Longrightarrow> get_property (delete_property kvs key) k = get_property kvs k"
  unfolding get_property_def delete_property_def
  by (induction kvs) auto

lemma delete_property_keys:
  "map fst (delete_property kvs key) = filter (\<lambda>k. k \<noteq> key) (map fst kvs)"
  unfolding delete_property_def by (induction kvs) auto

lemma delete_property_absent: "key \<notin> set (map fst (delete_property kvs key))"
  by (simp add: delete_property_keys)

lemma join_concat: "join [] ss = concat ss"
  by (induction ss rule: induct_list012) auto

lemma escape_hatch_contents:
  assumes "escape_hatch h attributes raw = Inr (contents, h1)"
  shows "\<exists>xs. lookup h1 contents = Some (Array xs)"
  using escape_hatch_cases [OF assms]
proof (elim disjE exE conjE)
  assume "contents = length h" "h1 = h @ [Array raw]"
  then show ?thesis by (simp add: lookup_alloc_new)
next
  fix a kvs
  assume "lookup h a = Some (Attributes kvs)" and c: "contents = length h + 2"
    and h1: "h1 = (h @ [Array raw, TextNode (ToString (get_property kvs dangerousInnerHtml)),
                Array [Ref (length h + 1)]])
          [a := Attributes (delete_property kvs dangerousInnerHtml)]"
  then have "a < length h" by (simp add: lookup_Some_less)
  then show ?thesis unfolding c h1 by (simp add: lookup_def nth_append)
qed

lemma attributesToString_Attributes:
  "lookup h a = Some (Attributes kvs) \<Longrightarrow>
   attributesToString h (Some a) =
     (case map_result (attributeToString kvs) (map fst kvs) of
        Inl e \<Rightarrow> Inl e
      | Inr ss \<Rightarrow> Inr (0x20 # join [0x20] (filter (\<lambda>s. length s \<noteq> 0) ss)))"
  by (simp add: attributesToString_def)

section \<open>Rendering\<close>

lemma toString_single_TextNode:
  assumes node: "lookup h3 node = Some (RenderNode tag attributes flat)"
    and flat: "lookup h3 flat = Some (Array [Ref t])"
    and t: "lookup h3 t = Some (TextNode s)"
  shows "toString (Suc k) h3 node =
     (case attributesToString h3 attributes of
        Inl e \<Rightarrow> Inl e
      | Inr as \<Rightarrow> Inr ([0x3C] @ tag @ as @ [0x3E] @ s @ [0x3C, 0x2F] @ tag @ [0x3E]))"
proof -
  have "toString k h3 t = Inr s" using t by (simp add: toString.simps)
  then have "children_toString (Suc k) h3 [Ref t] = Inr [s]"
    by (simp add: children_toString.simps)
  with node flat show ?thesis
    by (simp add: toString.simps [of "Suc k"] split: sum.splits)
qed

lemma kebab_dangerousInnerHtml: "toKebabCase dangerousInnerHtml = str ''dangerous-inner-html''"
  by code_simp

lemma attributeToString_get_property:
  "attributeToString kvs name =
     (case get_property kvs name of
        VDate d \<Rightarrow>
          (case iso d of
             None \<Rightarrow> Inl InvalidTimeValue
           | Some s \<Rightarrow> Inr (toKebabCase name @ [0x3D, 0x22] @ s @ [0x22]))
      | VBoolean b \<Rightarrow> Inr (if b then toKebabCase name else [])
      | VUndefined \<Rightarrow> Inr (toKebabCase name @ [0x3D, 0x22, 0x22])
      | VNull \<Rightarrow> Inr (toKebabCase name @ [0x3D, 0x22, 0x22])
      | v \<Rightarrow> Inr (toKebabCase name @ [0x3D, 0x22] @ escapeAttrNodeValue (ToString v) @ [0x22]))"
  by (simp add: attributeToString_def get_property_def escapeAttrNodeValue_def
      split: prim.splits option.splits)

lemma createElement_keeps_contents:
  assumes "lookup h a = Some (Attributes kvs)"
    and "\<not> truthy (get_property kvs dangerousInnerHtml)"
    and "flat_spec h n rawContents ys" and "n \<le> fuel"
  shows "\<exists>h2 flat.
     createElement fuel h name (Some a) rawContents =
       (case name of
          TagName nm \<Rightarrow> Inr (Ref (length h2), h2 @ [RenderNode (toKebabCase nm) (Some a) flat])
        | Handler f \<Rightarrow> f h2 (Some a) flat) \<and>
     lookup h2 flat = Some (Array ys) \<and> extends h h2"
proof -
  let ?h1 = "h @ [Array rawContents]"
  have hatch: "escape_hatch h (Some a) rawContents = Inr (length h, ?h1)"
    using assms(1,2) by (rule escape_hatch_falsy)
  have e1: "extends h ?h1" by (rule extends_append)
  have c1: "lookup ?h1 (length h) = Some (Array rawContents)" by (rule lookup_alloc_new)
  have "flat_spec ?h1 n rawContents ys" using assms(3) e1 by (rule flat_spec_extends)
  from flattenContents_complete [OF c1 this assms(4)] obtain h2 where
    h2: "flattenContents fuel ?h1 (length h) = Inr (length ?h1, h2)"
      "lookup h2 (length ?h1) = Some (Array ys)" "extends ?h1 h2" by auto
  have "createElement fuel h name (Some a) rawContents =
       (case name of
          TagName nm \<Rightarrow> Inr (Ref (length h2), h2 @ [RenderNode (toKebabCase nm) (Some a) (length ?h1)])
        | Handler f \<Rightarrow> f h2 (Some a) (length ?h1))"
    using hatch h2(1) by (cases name) (simp_all add: createElement_TagName createElement_Handler)
  moreover have "extends h h2" using e1 h2(3) by (rule extends_trans)
  ultimately show ?thesis using h2(2) by blast
qed

lemma toString_void:
  assumes "lookup h this = Some (RenderNode tagName attributes children)"
    and "lookup h children = Some (Array cs)"
    and "isVoidElement tagName"
  shows "toString fuel h this =
     (if cs = []
      then (case attributesToString h attributes of
              Inl e \<Rightarrow> Inl e
            | Inr as \<Rightarrow> Inr ([0x3C] @ tagName @ as @ [0x3E]))
      else (case children_toString fuel h cs of
              Inl e \<Rightarrow> Inl e
            | Inr ss \<Rightarrow>
                (case attributesToString h attributes of
                   Inl e \<Rightarrow> Inl e
                 | Inr as \<Rightarrow>
                     Inr ([0x3C] @ tagName @ as @ [0x3E] @ concat ss
                          @ [0x3C, 0x2F] @ tagName @ [0x3E]))))"
  using assms
  by (simp add: toString.simps [of fuel h this] join_concat split: sum.splits)

lemma attributeToString_boolean:
  "get_property kvs name = VBoolean b \<Longrightarrow>
   attributeToString kvs name = Inr (if b then toKebabCase name else [])"
  by (simp add: attributeToString_get_property)

lemma kebab_input: "toKebabCase (str ''input'') = str ''input''"
  by code_simp

lemma void_input: "isVoidElement (str ''input'')"
  by code_simp

lemma void_img: "isVoidElement (str ''img'')"
  by code_simp

lemma toKebabCase_Nil_iff: "toKebabCase s = [] \<longleftrightarrow> s = []"
proof
  assume "toKebabCase s = []"
  then have "\<forall>i\<in>set [0..<length s].
      (if isUpper s i \<and> has_lower_neighbour s i then [0x2D, s ! i + 0x20] else [s ! i]) = []"
    unfolding toKebabCase_units by (simp only: concat_eq_Nil_conv set_map ball_simps)
  then have "set [0..<length s] = {}" by (auto split: if_splits)
  then show "s = []" by simp
next
  assume "s = []"
  then show "toKebabCase s = []" by (simp add: toKebabCase_units)
qed

lemma attributeToString_nonempty_iff:
  assumes "attributeToString kvs name = Inr s"
  shows "length s \<noteq> 0 \<longleftrightarrow> emitted kvs name"
  using assms unfolding attributeToString_get_property emitted_def
  by (auto simp: toKebabCase_Nil_iff split: prim.splits option.splits if_splits)

lemma filter_emitted:
  assumes "map_result (attributeToString kvs) ks = Inr ss"
  shows "filter (\<lambda>s. length s \<noteq> 0) ss =
     map snd (filter (\<lambda>p. emitted kvs (fst p)) (zip ks ss))"
  using assms
proof (induction ks arbitrary: ss)
  case Nil
  then show ?case by simp
next
  case (Cons k ks)
  from Cons.prems obtain s ss' where s: "attributeToString kvs k = Inr s"
    and ss': "map_result (attributeToString kvs) ks = Inr ss'" and ss: "ss = s # ss'"
    by (auto split: sum.splits)
  from attributeToString_nonempty_iff [OF s] Cons.IH [OF ss'] show ?case
    unfolding ss by simp
qed

lemma map_result_zip:
  assumes "map_result f ks = Inr ss"
  shows "length ss = length ks \<and> (\<forall>p\<in>set (zip ks ss). f (fst p) = Inr (snd p))"
  using assms
proof (induction ks arbitrary: ss)
  case Nil
  then show ?case by simp
next
  case (Cons k ks)
  from Cons.prems obtain s ss' where "f k = Inr s"
    and "map_result f ks = Inr ss'" and "ss = s # ss'"
    by (auto split: sum.splits)
  with Cons.IH [of ss'] show ?case by auto
qed


lemma createElement_no_attributes:
  assumes "flat_spec h n rawContents ys" and "n \<le> fuel"
  shows "\<exists>h2 flat.
     createElement fuel h name None rawContents =
       (case name of
          TagName nm \<Rightarrow> Inr (Ref (length h2), h2 @ [RenderNode (toKebabCase nm) None flat])
        | Handler f \<Rightarrow> f h2 None flat) \<and>
     lookup h2 flat = Some (Array ys) \<and> extends h h2"
proof -
  let ?h1 = "h @ [Array rawContents]"
  have hatch: "escape_hatch h None rawContents = Inr (length h, ?h1)"
    by (rule escape_hatch_None)
  have e1: "extends h ?h1" by (rule extends_append)
  have c1: "lookup ?h1 (length h) = Some (Array rawContents)" by (rule lookup_alloc_new)
  have "flat_spec ?h1 n rawContents ys" using assms(1) e1 by (rule flat_spec_extends)
  from flattenContents_complete [OF c1 this assms(2)] obtain h2 where
    h2: "flattenContents fuel ?h1 (length h) = Inr (length ?h1, h2)"
      "lookup h2 (length ?h1) = Some (Array ys)" "extends ?h1 h2" by auto
  have "createElement fuel h name None rawContents =
       (case name of
          TagName nm \<Rightarrow> Inr (Ref (length h2), h2 @ [RenderNode (toKebabCase nm) None (length ?h1)])
        | Handler f \<Rightarrow> f h2 None (length ?h1))"
    using hatch h2(1) by (cases name) (simp_all add: createElement_TagName createElement_Handler)
  moreover have "extends h h2" using e1 h2(3) by (rule extends_trans)
  ultimately show ?thesis using h2(2) by blast
qed

lemma createElement_hatch_store:
  assumes "lookup h a = Some (Attributes kvs)"
    and "truthy (get_property kvs dangerousInnerHtml)"
  shows "\<exists>h2 flat.
     createElement fuel h name (Some a) rawContents =
       (case name of
          TagName nm \<Rightarrow> Inr (Ref (length h2), h2 @ [RenderNode (toKebabCase nm) (Some a) flat])
        | Handler f \<Rightarrow> f h2 (Some a) flat) \<and>
     extends (h[a := Attributes (delete_property kvs dangerousInnerHtml)]) h2"
proof -
  let ?v = "get_property kvs dangerousInnerHtml"
  let ?kvs = "delete_property kvs dangerousInnerHtml"
  let ?t = "length h + 1"
  let ?new = "[Array rawContents, TextNode (ToString ?v), Array [Ref ?t]]"
  let ?h1 = "(h @ ?new)[a := Attributes ?kvs]"
  from assms(1) have a: "a < length h" by (rule lookup_Some_less)
  have hatch: "escape_hatch h (Some a) rawContents = Inr (length h + 2, ?h1)"
    using assms by (rule escape_hatch_truthy)
  have eq: "?h1 = h[a := Attributes ?kvs] @ ?new"
    using a by (simp add: list_update_append1)
  have c1: "lookup ?h1 (length h + 2) = Some (Array [Ref ?t])"
    using a by (simp add: lookup_def nth_append)
  have t1: "lookup ?h1 ?t = Some (TextNode (ToString ?v))"
    using a by (simp add: lookup_def nth_append)
  have "flat_spec ?h1 0 [Ref ?t] [Ref ?t]"
    using t1 by (intro flat_TextNodeI flat_Nil)
  from flattenContents_complete [OF c1 this, of fuel] obtain h2 where
    h2: "flattenContents fuel ?h1 (length h + 2) = Inr (length ?h1, h2)"
      "extends ?h1 h2" by auto
  have "createElement fuel h name (Some a) rawContents =
       (case name of
          TagName nm \<Rightarrow> Inr (Ref (length h2), h2 @ [RenderNode (toKebabCase nm) (Some a) (length ?h1)])
        | Handler f \<Rightarrow> f h2 (Some a) (length ?h1))"
    using hatch h2(1) by (cases name) (simp_all add: createElement_TagName createElement_Handler)
  moreover have "extends (h[a := Attributes ?kvs]) ?h1"
    unfolding eq by (rule extends_append)
  then have "extends (h[a := Attributes ?kvs]) h2" using h2(2) by (rule extends_trans)
  ultimately show ?thesis by blast
qed

section \<open>Claims\<close>

text \<open>
  C7. Attribute-value escaping is a single pass: every ampersand becomes \<open>&amp;\<close>, every
  double quote \<open>&quot;\<close>, every non-breaking space \<open>&nbsp;\<close>, each matched unit is
  replaced once, the output is not scanned again, and every other unit is left as it is.
\<close>

theorem escapeAttrNodeValue_single_pass:
  "escapeAttrNodeValue v = concat (map attr_escape_unit v)"
  unfolding escapeAttrNodeValue_def replace_global_concat
  by (rule arg_cong [where f = concat], rule map_cong)
     (auto simp: attr_pattern_def attr_replacer_def attr_escape_unit_def)

text \<open>
  C6. Text-content escaping, four passes with the ampersand first, turns the four
  characters \<open>&\<close>, \<open><\<close>, \<open>>\<close> and the double quote into
  \<open>&amp;&lt;&gt;&quot;\<close>; in general it is the replacement of each unit on its own,
  so no ampersand that a later pass introduces is escaped again (escaping the ampersand
  after \<open><\<close> would give \<open>&amp;lt;\<close>); and the flattener applies it to every content
  that is neither a node nor an array, after the conversion to a string.
\<close>

theorem escapeText_ampersand_first:
  "escapeText [0x26, 0x3C, 0x3E, 0x22] = str ''&amp;&lt;&gt;&quot;'' \<and>
   escapeText s = concat (map text_escape_unit s) \<and>
   replace_unit 0x26 (str ''&amp;'') (replace_unit 0x3C (str ''&lt;'') [0x3C]) = str ''&amp;lt;'' \<and>
   (lookup h contents = Some (Array xs) \<and>
    (\<forall>c\<in>set xs. \<not> instanceof_RenderNode h c \<and> \<not> instanceof_TextNode h c \<and> \<not> isArray h c) \<and>
    map_result (concat_empty h) xs = Inr ss \<longrightarrow>
    (\<exists>h'. flattenContents fuel h contents = Inr (length h, h') \<and>
          lookup h' (length h) = Some (Array (map (\<lambda>s. Prim (VString (escapeText s))) ss))))"
proof (intro conjI impI)
  show "escapeText [0x26, 0x3C, 0x3E, 0x22] = str ''&amp;&lt;&gt;&quot;''"
    by (simp add: escapeText_concat text_escape_unit_def str_def)
  show "escapeText s = concat (map text_escape_unit s)"
    by (rule escapeText_concat)
  show "replace_unit 0x26 (str ''&amp;'') (replace_unit 0x3C (str ''&lt;'') [0x3C]) = str ''&amp;lt;''"
    by (simp add: replace_unit_concat str_def)
next
  assume a: "lookup h contents = Some (Array xs) \<and>
    (\<forall>c\<in>set xs. \<not> instanceof_RenderNode h c \<and> \<not> instanceof_TextNode h c \<and> \<not> isArray h c) \<and>
    map_result (concat_empty h) xs = Inr ss"
  then have "flat_spec h 0 xs (map (\<lambda>s. Prim (VString (concat (map text_escape_unit s)))) ss)"
    by (intro leaves_flat_spec) simp_all
  from flattenContents_complete [OF _ this, of contents fuel] a
  show "\<exists>h'. flattenContents fuel h contents = Inr (length h, h') \<and>
          lookup h' (length h) = Some (Array (map (\<lambda>s. Prim (VString (escapeText s))) ss))"
    by (auto simp: escapeText_concat)
qed

theorem escapeText_ampersand_first_witness:
  "lookup amp_heap 0 =
     Some (Array [Prim (VString [0x26, 0x3C, 0x3E, 0x22]), Prim (VNumber (Num 5)), Prim VUndefined]) \<and>
   map_result (concat_empty amp_heap)
     [Prim (VString [0x26, 0x3C, 0x3E, 0x22]), Prim (VNumber (Num 5)), Prim VUndefined] =
     Inr [[0x26, 0x3C, 0x3E, 0x22], str ''5'', str ''undefined''] \<and>
   flattenContents 0 amp_heap 0 =
     Inr (1, amp_heap @ [Array [Prim (VString (str ''&amp;&lt;&gt;&quot;'')), Prim (VString (str ''5'')),
                            Prim (VString (str ''undefined''))]])"
  using escapeText_ampersand_first [of "[]" amp_heap 0
      "[Prim (VString [0x26, 0x3C, 0x3E, 0x22]), Prim (VNumber (Num 5)), Prim VUndefined]"
      "[[0x26, 0x3C, 0x3E, 0x22], str ''5'', str ''undefined'']" 0]
  by (simp add: amp_heap_def lookup_def concat_empty_def instanceof_RenderNode_def
      instanceof_TextNode_def isArray_def nat_digits.simps str_def flattenContents.simps
      flattenContents_loop.simps alloc_def push_def escapeText_concat text_escape_unit_def)


text \<open>
  C8. For a sequence of contents nested at most \<open>n\<close> deep, \<open>flattenContents\<close> with a
  call stack of at least \<open>n\<close> returns a new array that holds the flattening of the
  specification: depth first, left to right, the nodes as the references they are, every
  other value as its escaped string. Every object that was in the store, the input
  sequence among them, is unchanged.
\<close>

theorem flattenContents_depth_first:
  assumes "lookup h contents = Some (Array xs)" and "flat_spec h n xs ys" and "n \<le> fuel"
  shows "\<exists>h'. flattenContents fuel h contents = Inr (length h, h') \<and>
           lookup h' (length h) = Some (Array ys) \<and>
           extends h h' \<and> lookup h' contents = Some (Array xs)"
proof -
  from flattenContents_complete [OF assms] obtain h' where
    h': "flattenContents fuel h contents = Inr (length h, h')"
      "lookup h' (length h) = Some (Array ys)" "extends h h'" by blast
  from h'(3) assms(1) have "lookup h' contents = Some (Array xs)" by (rule extends_lookup)
  with h' show ?thesis by blast
qed


theorem flattenContents_depth_first_witness:
  "lookup nested_heap 3 = Some (Array [Ref 1, Prim (VBoolean False), Ref 0]) \<and>
   flat_spec nested_heap (Suc (Suc 0)) [Ref 1, Prim (VBoolean False), Ref 0]
     [Ref 0, Prim (VString (str ''5'')), Prim (VString (str ''null'')), Ref 0,
      Prim (VString (str ''false'')), Ref 0] \<and>
   flattenContents 2 nested_heap 3 =
     Inr (4, nested_heap @
       [Array [Ref 0, Prim (VString (str ''5'')), Prim (VString (str ''null'')), Ref 0,
               Prim (VString (str ''false'')), Ref 0],
        Array [Ref 0, Prim (VString (str ''5'')), Prim (VString (str ''null'')), Ref 0],
        Array [Prim (VString (str ''null'')), Ref 0]])"
proof -
  have look: "lookup nested_heap 3 = Some (Array [Ref 1, Prim (VBoolean False), Ref 0])"
    by (simp add: nested_heap_def lookup_def)
  have spec: "flat_spec nested_heap (Suc (Suc 0)) [Ref 1, Prim (VBoolean False), Ref 0]
     [Ref 0, Prim (VString (str ''5'')), Prim (VString (str ''null'')), Ref 0,
      Prim (VString (str ''false'')), Ref 0]"
    apply (rule flat_NestedI [where zs = "[Ref 0, Prim (VString (str ''5'')),
        Prim (VString (str ''null'')), Ref 0]"])
       apply (simp add: nested_heap_def lookup_def)
      apply (rule flat_TextNodeI)
       apply (simp add: nested_heap_def lookup_def)
      apply (rule flat_PrimI)
       apply (rule flat_NestedI)
          apply (simp add: nested_heap_def lookup_def)
         apply (rule flat_PrimI)
          apply (rule flat_TextNodeI)
           apply (simp add: nested_heap_def lookup_def)
          apply (rule flat_Nil)
         apply (rule refl)
        apply (rule flat_Nil)
       apply (simp add: str_def text_escape_unit_def)
      apply (simp add: str_def text_escape_unit_def nat_digits.simps)
     apply (rule flat_PrimI)
      apply (rule flat_TextNodeI)
       apply (simp add: nested_heap_def lookup_def)
      apply (rule flat_Nil)
     apply (simp add: str_def text_escape_unit_def)
    apply (simp add: str_def)
    done
  have run: "flattenContents 2 nested_heap 3 =
     Inr (4, nested_heap @
       [Array [Ref 0, Prim (VString (str ''5'')), Prim (VString (str ''null'')), Ref 0,
               Prim (VString (str ''false'')), Ref 0],
        Array [Ref 0, Prim (VString (str ''5'')), Prim (VString (str ''null'')), Ref 0],
        Array [Prim (VString (str ''null'')), Ref 0]])"
    by code_simp
  from flattenContents_depth_first [OF look spec, of 2] look spec run
  show ?thesis by simp
qed

text \<open>
  C10. \<open>createElement\<close> returns for every well-formed call (with the escape hatch taken,
  or with enough call stack for the nesting of the arguments), and what it changes in
  the caller's store is this: the attributes object loses its property
  \<open>dangerousInnerHtml\<close> exactly when it binds it to a truthy value, and is unchanged
  otherwise (also when the property is there with a falsy value); every other property
  keeps its value and its place, every other object is unchanged, and the \<open>RenderNode\<close>
  (or the handler) gets the address of the caller's attributes object itself.
\<close>

theorem createElement_only_mutation:
  assumes "attributes_ok h attributes"
    and "hatch_taken h attributes \<or> (flat_spec h n rawContents ys \<and> n \<le> fuel)"
  shows "\<exists>h2 flat.
     createElement fuel h name attributes rawContents =
       (case name of
          TagName nm \<Rightarrow> Inr (Ref (length h2), h2 @ [RenderNode (toKebabCase nm) attributes flat])
        | Handler f \<Rightarrow> f h2 attributes flat) \<and>
     (\<forall>a kvs. attributes = Some a \<and> lookup h a = Some (Attributes kvs) \<longrightarrow>
        lookup h2 a =
          Some (Attributes (if truthy (get_property kvs dangerousInnerHtml)
                            then delete_property kvs dangerousInnerHtml else kvs))) \<and>
     (\<forall>b ob. lookup h b = Some ob \<and> attributes \<noteq> Some b \<longrightarrow> lookup h2 b = Some ob) \<and>
     (\<forall>kvs k. k \<noteq> dangerousInnerHtml \<longrightarrow>
        get_property (delete_property kvs dangerousInnerHtml) k = get_property kvs k) \<and>
     (\<forall>kvs. map fst (delete_property kvs dangerousInnerHtml) =
        filter (\<lambda>k. k \<noteq> dangerousInnerHtml) (map fst kvs))"
proof -
  let ?run = "\<lambda>h2 flat. createElement fuel h name attributes rawContents =
       (case name of
          TagName nm \<Rightarrow> Inr (Ref (length h2), h2 @ [RenderNode (toKebabCase nm) attributes flat])
        | Handler f \<Rightarrow> f h2 attributes flat)"
  let ?obj = "\<lambda>h2. \<forall>a kvs. attributes = Some a \<and> lookup h a = Some (Attributes kvs) \<longrightarrow>
        lookup h2 a =
          Some (Attributes (if truthy (get_property kvs dangerousInnerHtml)
                            then delete_property kvs dangerousInnerHtml else kvs))"
  let ?rest = "\<lambda>h2. \<forall>b ob. lookup h b = Some ob \<and> attributes \<noteq> Some b \<longrightarrow> lookup h2 b = Some ob"
  have "\<exists>h2 flat. ?run h2 flat \<and> ?obj h2 \<and> ?rest h2"
  proof (cases attributes)
    case None
    with assms(2) have spec: "flat_spec h n rawContents ys" "n \<le> fuel"
      by (simp_all add: hatch_taken_def)
    from createElement_no_attributes [OF spec, of name] obtain h2 flat where
      "createElement fuel h name None rawContents =
       (case name of
          TagName nm \<Rightarrow> Inr (Ref (length h2), h2 @ [RenderNode (toKebabCase nm) None flat])
        | Handler f \<Rightarrow> f h2 None flat)" and e: "extends h h2" by blast
    moreover from e have "\<forall>b ob. lookup h b = Some ob \<longrightarrow> lookup h2 b = Some ob"
      by (blast intro: extends_lookup)
    ultimately show ?thesis using None by auto
  next
    case (Some a)
    with assms(1) obtain kvs where look: "lookup h a = Some (Attributes kvs)"
      by (auto simp: attributes_ok_def split: option.splits obj.splits)
    show ?thesis
    proof (cases "truthy (get_property kvs dangerousInnerHtml)")
      case True
      let ?h' = "h[a := Attributes (delete_property kvs dangerousInnerHtml)]"
      from createElement_hatch_store [OF look True, of fuel name rawContents]
      obtain h2 flat where run: "createElement fuel h name (Some a) rawContents =
       (case name of
          TagName nm \<Rightarrow> Inr (Ref (length h2), h2 @ [RenderNode (toKebabCase nm) (Some a) flat])
        | Handler f \<Rightarrow> f h2 (Some a) flat)" and e: "extends ?h' h2" by blast
      from look have a: "a < length h" by (rule lookup_Some_less)
      then have "lookup ?h' a = Some (Attributes (delete_property kvs dangerousInnerHtml))"
        by (simp add: lookup_def)
      with e have obj: "lookup h2 a = Some (Attributes (delete_property kvs dangerousInnerHtml))"
        by (rule extends_lookup)
      have rest: "lookup h2 b = Some ob" if "lookup h b = Some ob" "b \<noteq> a" for b ob
      proof -
        from that have "lookup ?h' b = Some ob" by (simp add: lookup_def split: if_splits)
        with e show ?thesis by (rule extends_lookup)
      qed
      from run obj rest look True Some show ?thesis by auto
    next
      case False
      with assms(2) look Some have spec: "flat_spec h n rawContents ys" "n \<le> fuel"
        by (simp_all add: hatch_taken_def)
      from createElement_keeps_contents [OF look False spec, of name] obtain h2 flat where
        run: "createElement fuel h name (Some a) rawContents =
       (case name of
          TagName nm \<Rightarrow> Inr (Ref (length h2), h2 @ [RenderNode (toKebabCase nm) (Some a) flat])
        | Handler f \<Rightarrow> f h2 (Some a) flat)" and e: "extends h h2" by blast
      from e have all: "\<forall>b ob. lookup h b = Some ob \<longrightarrow> lookup h2 b = Some ob"
        by (blast intro: extends_lookup)
      from run all look False Some show ?thesis by auto
    qed
  qed
  then show ?thesis
    by (simp add: delete_property_other delete_property_keys)
qed

theorem createElement_only_mutation_witness:
  "attributes_ok hatch_heap (Some 0) \<and> hatch_taken hatch_heap (Some 0) \<and>
   createElement 0 hatch_heap (TagName (str ''div'')) (Some 0) [Prim (VString (str ''x''))] =
     Inr (Ref 5,
          [Attributes [(str ''hidden'', VBoolean True)], Array [Prim (VString (str ''x''))],
           TextNode (str ''<b>x</b>''), Array [Ref 2], Array [Ref 2],
           RenderNode (str ''div'') (Some 0) 4]) \<and>
   attributes_ok false_hatch_heap (Some 0) \<and>
   flat_spec false_hatch_heap 0 [] [] \<and>
   createElement 0 false_hatch_heap (TagName (str ''div'')) (Some 0) [] =
     Inr (Ref 3, false_hatch_heap @ [Array [], Array [], RenderNode (str ''div'') (Some 0) 2])"
proof -
  have ok: "attributes_ok hatch_heap (Some 0)" by code_simp
  have taken: "hatch_taken hatch_heap (Some 0)" by code_simp
  have run: "createElement 0 hatch_heap (TagName (str ''div'')) (Some 0) [Prim (VString (str ''x''))] =
     Inr (Ref 5,
          [Attributes [(str ''hidden'', VBoolean True)], Array [Prim (VString (str ''x''))],
           TextNode (str ''<b>x</b>''), Array [Ref 2], Array [Ref 2],
           RenderNode (str ''div'') (Some 0) 4])"
    by code_simp
  have ok2: "attributes_ok false_hatch_heap (Some 0)" by code_simp
  have spec2: "flat_spec false_hatch_heap 0 [] []" by (rule flat_Nil)
  have run2: "createElement 0 false_hatch_heap (TagName (str ''div'')) (Some 0) [] =
     Inr (Ref 3, false_hatch_heap @ [Array [], Array [], RenderNode (str ''div'') (Some 0) 2])"
    by code_simp
  from createElement_only_mutation [OF ok disjI1 [OF taken], of 0 "TagName (str ''div'')"]
    createElement_only_mutation [OF ok2 disjI2 [OF conjI [OF spec2 le_refl]], of "TagName (str ''div'')"]
    ok taken run ok2 spec2 run2
  show ?thesis by simp
qed

theorem createElement_only_mutation_counterexample:
  "lookup false_hatch_heap 0 =
     Some (Attributes [(dangerousInnerHtml, VBoolean False), (str ''hidden'', VBoolean True)]) \<and>
   map_of [(dangerousInnerHtml, VBoolean False), (str ''hidden'', VBoolean True)] dangerousInnerHtml =
     Some (VBoolean False) \<and>
   createElement 0 false_hatch_heap (TagName (str ''div'')) (Some 0) [] =
     Inr (Ref 3, false_hatch_heap @ [Array [], Array [], RenderNode (str ''div'') (Some 0) 2]) \<and>
   lookup (false_hatch_heap @ [Array [], Array [], RenderNode (str ''div'') (Some 0) 2]) 0 =
     Some (Attributes [(dangerousInnerHtml, VBoolean False), (str ''hidden'', VBoolean True)])"
proof (intro conjI)
  show "lookup false_hatch_heap 0 =
     Some (Attributes [(dangerousInnerHtml, VBoolean False), (str ''hidden'', VBoolean True)])"
    by (simp add: false_hatch_heap_def lookup_def)
  show "map_of [(dangerousInnerHtml, VBoolean False), (str ''hidden'', VBoolean True)] dangerousInnerHtml =
     Some (VBoolean False)"
    by simp
  show "createElement 0 false_hatch_heap (TagName (str ''div'')) (Some 0) [] =
     Inr (Ref 3, false_hatch_heap @ [Array [], Array [], RenderNode (str ''div'') (Some 0) 2])"
    by code_simp
  show "lookup (false_hatch_heap @ [Array [], Array [], RenderNode (str ''div'') (Some 0) 2]) 0 =
     Some (Attributes [(dangerousInnerHtml, VBoolean False), (str ''hidden'', VBoolean True)])"
    by (simp add: false_hatch_heap_def lookup_def)
qed

text \<open>
  C9. With a handler as the name, \<open>createElement\<close> is the handler applied once, to the
  store after the flattening, the attributes and the array that holds the flattened
  contents; what the handler returns (value and store, or the error it throws) is what
  \<open>createElement\<close> returns.
\<close>

theorem createElement_handler_delegation:
  assumes "escape_hatch h attributes rawContents = Inr (contents, h1)"
    and "flat_spec h1 n (elements h1 contents) ys" and "n \<le> fuel"
  shows "\<exists>flat h2. createElement fuel h (Handler f) attributes rawContents = f h2 attributes flat \<and>
           lookup h2 flat = Some (Array ys) \<and> extends h1 h2"
proof -
  from escape_hatch_contents [OF assms(1)] obtain xs where
    xs: "lookup h1 contents = Some (Array xs)" by blast
  then have "elements h1 contents = xs" by (simp add: elements_def)
  with assms(2) have "flat_spec h1 n xs ys" by simp
  from flattenContents_complete [OF xs this assms(3)] obtain h2 where
    h2: "flattenContents fuel h1 contents = Inr (length h1, h2)"
      "lookup h2 (length h1) = Some (Array ys)" "extends h1 h2" by blast
  from assms(1) h2(1)
  have "createElement fuel h (Handler f) attributes rawContents = f h2 attributes (length h1)"
    by (simp add: createElement_Handler)
  with h2 show ?thesis by blast
qed


theorem createElement_handler_delegation_witness:
  "escape_hatch [] None [Prim (VString (str ''a<''))] =
     Inr (0, [Array [Prim (VString (str ''a<''))]]) \<and>
   flat_spec [Array [Prim (VString (str ''a<''))]] 0
     (elements [Array [Prim (VString (str ''a<''))]] 0) [Prim (VString (str ''a&lt;''))] \<and>
   createElement 0 [] (Handler marking_handler) None [Prim (VString (str ''a<''))] =
     Inr (Ref 1, [Array [Prim (VString (str ''a<''))], Array [Prim (VString (str ''a&lt;''))],
                  TextNode (str ''called'')])"
proof -
  let ?h1 = "[Array [Prim (VString (str ''a<''))]]"
  have hatch: "escape_hatch [] None [Prim (VString (str ''a<''))] = Inr (0, ?h1)"
    by code_simp
  have el: "elements ?h1 0 = [Prim (VString (str ''a<''))]"
    by (simp add: elements_def lookup_def)
  have spec: "flat_spec ?h1 0 (elements ?h1 0) [Prim (VString (str ''a&lt;''))]"
    unfolding el
    by (rule flat_PrimI, rule flat_Nil) (simp add: str_def text_escape_unit_def)
  have run: "createElement 0 [] (Handler marking_handler) None [Prim (VString (str ''a<''))] =
     Inr (Ref 1, [Array [Prim (VString (str ''a<''))], Array [Prim (VString (str ''a&lt;''))],
                  TextNode (str ''called'')])"
    by code_simp
  from createElement_handler_delegation [OF hatch spec, of 0 marking_handler] hatch spec run
  show ?thesis by simp
qed

text \<open>
  C1. When the attributes object binds \<open>dangerousInnerHtml\<close> to a truthy value,
  the arguments are dropped: the flattened contents are the one reference to a new
  \<open>TextNode\<close> that holds the value converted to a string, the property is deleted from
  the attributes object, so that no attribute is serialized from it, and the element
  renders the value verbatim between its tags. A falsy value does not take the escape
  hatch: with the empty string the child is kept and the property stays.
\<close>

theorem createElement_escape_hatch:
  assumes "lookup h a = Some (Attributes kvs)"
    and "truthy (get_property kvs dangerousInnerHtml)"
  shows "\<exists>h2 flat t.
     createElement fuel h name (Some a) rawContents =
       (case name of
          TagName n \<Rightarrow> Inr (Ref (length h2), h2 @ [RenderNode (toKebabCase n) (Some a) flat])
        | Handler f \<Rightarrow> f h2 (Some a) flat) \<and>
     lookup h2 flat = Some (Array [Ref t]) \<and>
     lookup h2 t = Some (TextNode (ToString (get_property kvs dangerousInnerHtml))) \<and>
     lookup h2 a = Some (Attributes (delete_property kvs dangerousInnerHtml)) \<and>
     dangerousInnerHtml \<notin> set (map fst (delete_property kvs dangerousInnerHtml)) \<and>
     (\<forall>n k. toString (Suc k) (h2 @ [RenderNode (toKebabCase n) (Some a) flat]) (length h2) =
        (case map_result (attributeToString (delete_property kvs dangerousInnerHtml))
                (map fst (delete_property kvs dangerousInnerHtml)) of
           Inl e \<Rightarrow> Inl e
         | Inr ss \<Rightarrow>
             Inr ([0x3C] @ toKebabCase n @ (0x20 # join [0x20] (filter (\<lambda>s. length s \<noteq> 0) ss))
                  @ [0x3E] @ ToString (get_property kvs dangerousInnerHtml)
                  @ [0x3C, 0x2F] @ toKebabCase n @ [0x3E])))"
proof -
  let ?v = "get_property kvs dangerousInnerHtml"
  let ?kvs = "delete_property kvs dangerousInnerHtml"
  let ?t = "length h + 1"
  let ?h1 = "(h @ [Array rawContents, TextNode (ToString ?v), Array [Ref ?t]])[a := Attributes ?kvs]"
  from assms(1) have a: "a < length h" by (rule lookup_Some_less)
  have hatch: "escape_hatch h (Some a) rawContents = Inr (length h + 2, ?h1)"
    using assms by (rule escape_hatch_truthy)
  have c1: "lookup ?h1 (length h + 2) = Some (Array [Ref ?t])"
    using a by (simp add: lookup_def nth_append)
  have t1: "lookup ?h1 ?t = Some (TextNode (ToString ?v))"
    using a by (simp add: lookup_def nth_append)
  have a1: "lookup ?h1 a = Some (Attributes ?kvs)"
    using a by (simp add: lookup_def)
  have "flat_spec ?h1 0 [Ref ?t] [Ref ?t]"
    using t1 by (intro flat_TextNodeI flat_Nil)
  from flattenContents_complete [OF c1 this, of fuel] obtain h2 where
    h2: "flattenContents fuel ?h1 (length h + 2) = Inr (length ?h1, h2)"
      "lookup h2 (length ?h1) = Some (Array [Ref ?t])" "extends ?h1 h2" by auto
  let ?flat = "length ?h1"
  have run: "createElement fuel h name (Some a) rawContents =
       (case name of
          TagName n \<Rightarrow> Inr (Ref (length h2), h2 @ [RenderNode (toKebabCase n) (Some a) ?flat])
        | Handler f \<Rightarrow> f h2 (Some a) ?flat)"
    using hatch h2(1) by (cases name) (simp_all add: createElement_TagName createElement_Handler)
  have t2: "lookup h2 ?t = Some (TextNode (ToString ?v))"
    using h2(3) t1 by (rule extends_lookup)
  have a2: "lookup h2 a = Some (Attributes ?kvs)"
    using h2(3) a1 by (rule extends_lookup)
  have render: "toString (Suc k) (h2 @ [RenderNode (toKebabCase n) (Some a) ?flat]) (length h2) =
        (case map_result (attributeToString ?kvs) (map fst ?kvs) of
           Inl e \<Rightarrow> Inl e
         | Inr ss \<Rightarrow>
             Inr ([0x3C] @ toKebabCase n @ (0x20 # join [0x20] (filter (\<lambda>s. length s \<noteq> 0) ss))
                  @ [0x3E] @ ToString ?v @ [0x3C, 0x2F] @ toKebabCase n @ [0x3E]))" for n k
  proof -
    let ?h3 = "h2 @ [RenderNode (toKebabCase n) (Some a) ?flat]"
    have e: "extends h2 ?h3" by (rule extends_append)
    have "lookup ?h3 (length h2) = Some (RenderNode (toKebabCase n) (Some a) ?flat)"
      by (rule lookup_alloc_new)
    moreover have "lookup ?h3 ?flat = Some (Array [Ref ?t])"
      using e h2(2) by (rule extends_lookup)
    moreover have "lookup ?h3 ?t = Some (TextNode (ToString ?v))"
      using e t2 by (rule extends_lookup)
    ultimately have "toString (Suc k) ?h3 (length h2) =
     (case attributesToString ?h3 (Some a) of
        Inl e \<Rightarrow> Inl e
      | Inr as \<Rightarrow> Inr ([0x3C] @ toKebabCase n @ as @ [0x3E] @ ToString ?v
          @ [0x3C, 0x2F] @ toKebabCase n @ [0x3E]))"
      by (rule toString_single_TextNode)
    moreover have "lookup ?h3 a = Some (Attributes ?kvs)"
      using e a2 by (rule extends_lookup)
    ultimately show ?thesis
      by (simp add: attributesToString_Attributes split: sum.splits)
  qed
  from run h2(2) t2 a2 delete_property_absent [of dangerousInnerHtml kvs] render
  show ?thesis by blast
qed


theorem createElement_escape_hatch_witness:
  "lookup hatch_heap 0 =
     Some (Attributes [(dangerousInnerHtml, VString (str ''<b>x</b>'')),
                       (str ''hidden'', VBoolean True)]) \<and>
   truthy (get_property [(dangerousInnerHtml, VString (str ''<b>x</b>'')),
                         (str ''hidden'', VBoolean True)] dangerousInnerHtml) \<and>
   createElement 0 hatch_heap (TagName (str ''div'')) (Some 0) [Prim (VString (str ''x''))] =
     Inr (Ref 5,
          [Attributes [(str ''hidden'', VBoolean True)], Array [Prim (VString (str ''x''))],
           TextNode (str ''<b>x</b>''), Array [Ref 2], Array [Ref 2],
           RenderNode (str ''div'') (Some 0) 4]) \<and>
   toString 1
     [Attributes [(str ''hidden'', VBoolean True)], Array [Prim (VString (str ''x''))],
      TextNode (str ''<b>x</b>''), Array [Ref 2], Array [Ref 2],
      RenderNode (str ''div'') (Some 0) 4] 5 =
     Inr (str ''<div hidden><b>x</b></div>'')"
proof -
  have look: "lookup hatch_heap 0 =
     Some (Attributes [(dangerousInnerHtml, VString (str ''<b>x</b>'')),
                       (str ''hidden'', VBoolean True)])"
    by (simp add: hatch_heap_def lookup_def)
  have tr: "truthy (get_property [(dangerousInnerHtml, VString (str ''<b>x</b>'')),
                         (str ''hidden'', VBoolean True)] dangerousInnerHtml)"
    by code_simp
  have run: "createElement 0 hatch_heap (TagName (str ''div'')) (Some 0) [Prim (VString (str ''x''))] =
     Inr (Ref 5,
          [Attributes [(str ''hidden'', VBoolean True)], Array [Prim (VString (str ''x''))],
           TextNode (str ''<b>x</b>''), Array [Ref 2], Array [Ref 2],
           RenderNode (str ''div'') (Some 0) 4])"
    by code_simp
  have render: "toString 1
     [Attributes [(str ''hidden'', VBoolean True)], Array [Prim (VString (str ''x''))],
      TextNode (str ''<b>x</b>''), Array [Ref 2], Array [Ref 2],
      RenderNode (str ''div'') (Some 0) 4] 5 =
     Inr (str ''<div hidden><b>x</b></div>'')"
    by code_simp
  from createElement_escape_hatch [OF look tr] look tr run render
  show ?thesis by simp
qed

theorem createElement_escape_hatch_counterexample:
  "lookup empty_hatch_heap 0 = Some (Attributes [(dangerousInnerHtml, VString [])]) \<and>
   createElement 0 empty_hatch_heap (TagName (str ''div'')) (Some 0) [Prim (VString (str ''x''))] =
     Inr (Ref 3,
          [Attributes [(dangerousInnerHtml, VString [])], Array [Prim (VString (str ''x''))],
           Array [Prim (VString (str ''x''))], RenderNode (str ''div'') (Some 0) 2]) \<and>
   toString 0
     [Attributes [(dangerousInnerHtml, VString [])], Array [Prim (VString (str ''x''))],
      Array [Prim (VString (str ''x''))], RenderNode (str ''div'') (Some 0) 2] 3 =
     Inr (str ''<div dangerous-inner-html='' @ [0x22, 0x22] @ str ''>x</div>'')"
proof (intro conjI)
  show "lookup empty_hatch_heap 0 = Some (Attributes [(dangerousInnerHtml, VString [])])"
    by (simp add: empty_hatch_heap_def lookup_def)
  show "createElement 0 empty_hatch_heap (TagName (str ''div'')) (Some 0) [Prim (VString (str ''x''))] =
     Inr (Ref 3,
          [Attributes [(dangerousInnerHtml, VString [])], Array [Prim (VString (str ''x''))],
           Array [Prim (VString (str ''x''))], RenderNode (str ''div'') (Some 0) 2])"
    by code_simp
  show "toString 0
     [Attributes [(dangerousInnerHtml, VString [])], Array [Prim (VString (str ''x''))],
      Array [Prim (VString (str ''x''))], RenderNode (str ''div'') (Some 0) 2] 3 =
     Inr (str ''<div dangerous-inner-html='' @ [0x22, 0x22] @ str ''>x</div>'')"
    by code_simp
qed

text \<open>
  C5. When the attributes object binds \<open>dangerousInnerHtml\<close> to a falsy value (the empty
  string, \<open>0\<close>, \<open>false\<close>; a missing property reads as \<open>undefined\<close>), the escape hatch
  is not taken: the flattened contents are the flattening of the arguments, the
  attributes object is unchanged, and the property is serialized as any other attribute
  is, \<open>dangerous-inner-html\<close> with an empty value for the empty string.
\<close>

theorem createElement_falsy_hatch:
  assumes "lookup h a = Some (Attributes kvs)"
    and "\<not> truthy (get_property kvs dangerousInnerHtml)"
    and "flat_spec h n rawContents ys" and "n \<le> fuel"
  shows "\<exists>h2 flat.
     createElement fuel h name (Some a) rawContents =
       (case name of
          TagName nm \<Rightarrow> Inr (Ref (length h2), h2 @ [RenderNode (toKebabCase nm) (Some a) flat])
        | Handler f \<Rightarrow> f h2 (Some a) flat) \<and>
     lookup h2 flat = Some (Array ys) \<and>
     extends h h2 \<and>
     lookup h2 a = Some (Attributes kvs) \<and>
     (\<forall>nm. attributesToString (h2 @ [RenderNode (toKebabCase nm) (Some a) flat]) (Some a) =
        (case map_result (attributeToString kvs) (map fst kvs) of
           Inl e \<Rightarrow> Inl e
         | Inr ss \<Rightarrow> Inr (0x20 # join [0x20] (filter (\<lambda>s. length s \<noteq> 0) ss)))) \<and>
     (get_property kvs dangerousInnerHtml = VString [] \<longrightarrow>
        dangerousInnerHtml \<in> set (map fst kvs) \<and>
        attributeToString kvs dangerousInnerHtml =
          Inr (str ''dangerous-inner-html='' @ [0x22, 0x22])) \<and>
     (get_property kvs dangerousInnerHtml = VNumber (Num 0) \<longrightarrow>
        attributeToString kvs dangerousInnerHtml =
          Inr (str ''dangerous-inner-html='' @ [0x22] @ str ''0'' @ [0x22])) \<and>
     (get_property kvs dangerousInnerHtml = VBoolean False \<longrightarrow>
        attributeToString kvs dangerousInnerHtml = Inr [])"
proof -
  from createElement_keeps_contents [OF assms, of name] obtain h2 flat where
    run: "createElement fuel h name (Some a) rawContents =
       (case name of
          TagName nm \<Rightarrow> Inr (Ref (length h2), h2 @ [RenderNode (toKebabCase nm) (Some a) flat])
        | Handler f \<Rightarrow> f h2 (Some a) flat)"
    and flat: "lookup h2 flat = Some (Array ys)" and e2: "extends h h2" by blast
  from e2 assms(1) have a2: "lookup h2 a = Some (Attributes kvs)" by (rule extends_lookup)
  have ser: "attributesToString (h2 @ [RenderNode (toKebabCase nm) (Some a) flat]) (Some a) =
        (case map_result (attributeToString kvs) (map fst kvs) of
           Inl e \<Rightarrow> Inl e
         | Inr ss \<Rightarrow> Inr (0x20 # join [0x20] (filter (\<lambda>s. length s \<noteq> 0) ss)))" for nm
  proof -
    have "lookup (h2 @ [RenderNode (toKebabCase nm) (Some a) flat]) a = Some (Attributes kvs)"
      using extends_append a2 by (rule extends_lookup)
    then show ?thesis by (rule attributesToString_Attributes)
  qed
  have empty: "dangerousInnerHtml \<in> set (map fst kvs) \<and>
        attributeToString kvs dangerousInnerHtml =
          Inr (str ''dangerous-inner-html='' @ [0x22, 0x22])"
    if v: "get_property kvs dangerousInnerHtml = VString []"
  proof
    from v have "map_of kvs dangerousInnerHtml = Some (VString [])"
      by (simp add: get_property_def split: option.splits)
    then have "(dangerousInnerHtml, VString []) \<in> set kvs" by (rule map_of_SomeD)
    then show "dangerousInnerHtml \<in> set (map fst kvs)" by force
    show "attributeToString kvs dangerousInnerHtml =
          Inr (str ''dangerous-inner-html='' @ [0x22, 0x22])"
      by (simp add: attributeToString_get_property v kebab_dangerousInnerHtml
          escapeAttrNodeValue_def str_def)
  qed
  have zero: "attributeToString kvs dangerousInnerHtml =
          Inr (str ''dangerous-inner-html='' @ [0x22] @ str ''0'' @ [0x22])"
    if v: "get_property kvs dangerousInnerHtml = VNumber (Num 0)"
  proof -
    have "escapeAttrNodeValue (ToString (VNumber (Num 0))) = str ''0''" by code_simp
    moreover have "attributeToString kvs dangerousInnerHtml =
      Inr (toKebabCase dangerousInnerHtml @ [0x3D, 0x22]
           @ escapeAttrNodeValue (ToString (VNumber (Num 0))) @ [0x22])"
      by (simp only: attributeToString_get_property v prim.case)
    ultimately show ?thesis
      by (simp only: kebab_dangerousInnerHtml) (simp add: str_def)
  qed
  have false: "attributeToString kvs dangerousInnerHtml = Inr []"
    if v: "get_property kvs dangerousInnerHtml = VBoolean False"
    by (simp add: attributeToString_get_property v)
  from run flat e2 a2 ser empty zero false show ?thesis by blast
qed


theorem createElement_falsy_hatch_witness:
  "lookup falsy_heap 0 = Some (Attributes [(dangerousInnerHtml, VNumber (Num 0))]) \<and>
   \<not> truthy (get_property [(dangerousInnerHtml, VNumber (Num 0))] dangerousInnerHtml) \<and>
   flat_spec falsy_heap 0 [Prim (VString (str ''x<''))] [Prim (VString (str ''x&lt;''))] \<and>
   createElement 0 falsy_heap (TagName (str ''div'')) (Some 0) [Prim (VString (str ''x<''))] =
     Inr (Ref 3,
          [Attributes [(dangerousInnerHtml, VNumber (Num 0))], Array [Prim (VString (str ''x<''))],
           Array [Prim (VString (str ''x&lt;''))], RenderNode (str ''div'') (Some 0) 2]) \<and>
   toString 0
     [Attributes [(dangerousInnerHtml, VNumber (Num 0))], Array [Prim (VString (str ''x<''))],
      Array [Prim (VString (str ''x&lt;''))], RenderNode (str ''div'') (Some 0) 2] 3 =
     Inr (str ''<div dangerous-inner-html='' @ [0x22] @ str ''0'' @ [0x22] @ str ''>x&lt;</div>'')"
proof -
  have look: "lookup falsy_heap 0 = Some (Attributes [(dangerousInnerHtml, VNumber (Num 0))])"
    by (simp add: falsy_heap_def lookup_def)
  have falsy: "\<not> truthy (get_property [(dangerousInnerHtml, VNumber (Num 0))] dangerousInnerHtml)"
    by (simp add: get_property_def)
  have spec: "flat_spec falsy_heap 0 [Prim (VString (str ''x<''))] [Prim (VString (str ''x&lt;''))]"
    by (rule flat_PrimI, rule flat_Nil) (simp add: str_def text_escape_unit_def)
  have run: "createElement 0 falsy_heap (TagName (str ''div'')) (Some 0) [Prim (VString (str ''x<''))] =
     Inr (Ref 3,
          [Attributes [(dangerousInnerHtml, VNumber (Num 0))], Array [Prim (VString (str ''x<''))],
           Array [Prim (VString (str ''x&lt;''))], RenderNode (str ''div'') (Some 0) 2])"
    by code_simp
  have render: "toString 0
     [Attributes [(dangerousInnerHtml, VNumber (Num 0))], Array [Prim (VString (str ''x<''))],
      Array [Prim (VString (str ''x&lt;''))], RenderNode (str ''div'') (Some 0) 2] 3 =
     Inr (str ''<div dangerous-inner-html='' @ [0x22] @ str ''0'' @ [0x22] @ str ''>x&lt;</div>'')"
    by code_simp
  from createElement_falsy_hatch [OF look falsy spec, of 0 "TagName (str ''div'')"]
    look falsy spec run render
  show ?thesis by simp
qed

text \<open>
  C2. A \<open>RenderNode\<close> with a void tag name renders in the self-closing form,
  the tag with its attributes and no closing tag, when its children array is empty;
  when it has children it renders in the full form, with the children and the closing
  tag. Building \<open>img\<close> with a child \<open>x\<close> renders \<open><img>x</img>\<close>: the child is not
  dropped.
\<close>

theorem void_element_rendering:
  assumes "lookup h this = Some (RenderNode tagName attributes children)"
    and "lookup h children = Some (Array cs)"
    and "isVoidElement tagName"
  shows "toString fuel h this =
     (if cs = []
      then (case attributesToString h attributes of
              Inl e \<Rightarrow> Inl e
            | Inr as \<Rightarrow> Inr ([0x3C] @ tagName @ as @ [0x3E]))
      else (case children_toString fuel h cs of
              Inl e \<Rightarrow> Inl e
            | Inr ss \<Rightarrow>
                (case attributesToString h attributes of
                   Inl e \<Rightarrow> Inl e
                 | Inr as \<Rightarrow>
                     Inr ([0x3C] @ tagName @ as @ [0x3E] @ concat ss
                          @ [0x3C, 0x2F] @ tagName @ [0x3E]))))"
  using assms by (rule toString_void)

theorem void_element_rendering_witness:
  "createElement 0 [] (TagName (str ''img'')) None [] = Inr (Ref 2, img_heap) \<and>
   lookup img_heap 2 = Some (RenderNode (str ''img'') None 1) \<and>
   lookup img_heap 1 = Some (Array []) \<and>
   isVoidElement (str ''img'') \<and>
   toString 0 img_heap 2 = Inr (str ''<img>'')"
proof -
  have run: "createElement 0 [] (TagName (str ''img'')) None [] = Inr (Ref 2, img_heap)"
    by code_simp
  have node: "lookup img_heap 2 = Some (RenderNode (str ''img'') None 1)"
    by (simp add: img_heap_def lookup_def)
  have children: "lookup img_heap 1 = Some (Array [])"
    by (simp add: img_heap_def lookup_def)
  from void_element_rendering [OF node children void_img, of 0] run node children void_img
  show ?thesis by (simp add: attributesToString_def str_def)
qed

theorem void_element_rendering_counterexample:
  "isVoidElement (str ''img'') \<and>
   createElement 0 [] (TagName (str ''img'')) None [Prim (VString (str ''x''))] =
     Inr (Ref 2, img_child_heap) \<and>
   toString 0 img_child_heap 2 = Inr (str ''<img>x</img>'') \<and>
   toString 0 img_child_heap 2 \<noteq> Inr (str ''<img>'')"
proof (intro conjI)
  show "isVoidElement (str ''img'')" by (rule void_img)
  show "createElement 0 [] (TagName (str ''img'')) None [Prim (VString (str ''x''))] =
     Inr (Ref 2, img_child_heap)"
    by code_simp
  show "toString 0 img_child_heap 2 = Inr (str ''<img>x</img>'')"
    by code_simp
  then show "toString 0 img_child_heap 2 \<noteq> Inr (str ''<img>'')"
    by (simp add: str_def)
qed

text \<open>
  C4. A boolean attribute renders as the bare transformed name when it is true and is
  left out when it is false. For any attributes object the attribute block is one space
  followed by the strings of the emitted attributes, in order, joined by single spaces:
  an attribute that is left out leaves no gap. The opening space is there whenever an
  attributes object is, so \<open>input\<close> with \<open>disabled\<close> true renders \<open><input disabled>\<close>,
  and with \<open>disabled\<close> false it renders \<open><input >\<close>, with one space inside the tag.
\<close>

theorem boolean_attribute_rendering:
  "(get_property kvs name = VBoolean b \<longrightarrow>
      attributeToString kvs name = Inr (if b then toKebabCase name else []) \<and>
      (emitted kvs name \<longleftrightarrow> b \<and> name \<noteq> [])) \<and>
   (lookup h a = Some (Attributes kvs) \<and>
    map_result (attributeToString kvs) (map fst kvs) = Inr ss \<longrightarrow>
      length ss = length kvs \<and>
      (\<forall>p\<in>set (zip (map fst kvs) ss). attributeToString kvs (fst p) = Inr (snd p)) \<and>
      attributesToString h (Some a) =
        Inr (0x20 # join [0x20]
               (map snd (filter (\<lambda>p. emitted kvs (fst p)) (zip (map fst kvs) ss))))) \<and>
   (lookup h a = Some (Attributes kvs) \<and>
    \<not> truthy (get_property kvs dangerousInnerHtml) \<and>
    map_result (attributeToString kvs) (map fst kvs) = Inr ss \<longrightarrow>
      (\<exists>h2 flat.
         createElement fuel h (TagName (str ''input'')) (Some a) [] =
           Inr (Ref (length h2), h2 @ [RenderNode (str ''input'') (Some a) flat]) \<and>
         toString k (h2 @ [RenderNode (str ''input'') (Some a) flat]) (length h2) =
           Inr (str ''<input '' @
                join [0x20]
                  (map snd (filter (\<lambda>p. emitted kvs (fst p)) (zip (map fst kvs) ss))) @
                str ''>'')))"
proof (intro conjI impI)
  assume "get_property kvs name = VBoolean b"
  then show "attributeToString kvs name = Inr (if b then toKebabCase name else [])"
    and "emitted kvs name \<longleftrightarrow> b \<and> name \<noteq> []"
    by (simp_all add: attributeToString_boolean emitted_def)
next
  assume a: "lookup h a = Some (Attributes kvs) \<and>
    map_result (attributeToString kvs) (map fst kvs) = Inr ss"
  then have ss: "map_result (attributeToString kvs) (map fst kvs) = Inr ss" by simp
  from map_result_zip [OF ss]
  show "length ss = length kvs"
    and "\<forall>p\<in>set (zip (map fst kvs) ss). attributeToString kvs (fst p) = Inr (snd p)"
    by simp_all
  from a show "attributesToString h (Some a) =
        Inr (0x20 # join [0x20]
               (map snd (filter (\<lambda>p. emitted kvs (fst p)) (zip (map fst kvs) ss))))"
    by (simp add: attributesToString_Attributes filter_emitted [OF ss, simplified])
next
  assume a: "lookup h a = Some (Attributes kvs) \<and>
    \<not> truthy (get_property kvs dangerousInnerHtml) \<and>
    map_result (attributeToString kvs) (map fst kvs) = Inr ss"
  then have look: "lookup h a = Some (Attributes kvs)"
    and falsy: "\<not> truthy (get_property kvs dangerousInnerHtml)"
    and ss: "map_result (attributeToString kvs) (map fst kvs) = Inr ss"
    by simp_all
  let ?block = "join [0x20] (map snd (filter (\<lambda>p. emitted kvs (fst p)) (zip (map fst kvs) ss)))"
  from createElement_keeps_contents [OF look falsy flat_Nil, of 0 fuel "TagName (str ''input'')"]
  obtain h2 flat where
    run: "createElement fuel h (TagName (str ''input'')) (Some a) [] =
           Inr (Ref (length h2), h2 @ [RenderNode (str ''input'') (Some a) flat])"
    and flat: "lookup h2 flat = Some (Array [])" and e2: "extends h h2"
    by (auto simp: kebab_input)
  let ?h3 = "h2 @ [RenderNode (str ''input'') (Some a) flat]"
  have e3: "extends h ?h3" using e2 extends_append by (rule extends_trans)
  have node: "lookup ?h3 (length h2) = Some (RenderNode (str ''input'') (Some a) flat)"
    by (rule lookup_alloc_new)
  have children: "lookup ?h3 flat = Some (Array [])"
    using extends_append flat by (rule extends_lookup)
  have "toString k ?h3 (length h2) =
      (case attributesToString ?h3 (Some a) of
         Inl e \<Rightarrow> Inl e
       | Inr as \<Rightarrow> Inr ([0x3C] @ str ''input'' @ as @ [0x3E]))"
    using toString_void [OF node children void_input, of k] by simp
  moreover have "lookup ?h3 a = Some (Attributes kvs)"
    using e3 look by (rule extends_lookup)
  then have "attributesToString ?h3 (Some a) = Inr (0x20 # ?block)"
    by (simp add: attributesToString_Attributes ss filter_emitted [OF ss, simplified])
  ultimately have "toString k ?h3 (length h2) = Inr (str ''<input '' @ ?block @ str ''>'')"
    by (simp add: str_def)
  with run show "\<exists>h2 flat.
         createElement fuel h (TagName (str ''input'')) (Some a) [] =
           Inr (Ref (length h2), h2 @ [RenderNode (str ''input'') (Some a) flat]) \<and>
         toString k (h2 @ [RenderNode (str ''input'') (Some a) flat]) (length h2) =
           Inr (str ''<input '' @ ?block @ str ''>'')"
    by blast
qed

theorem boolean_attribute_rendering_witness:
  "lookup two_flags_heap 0 =
     Some (Attributes [(str ''hidden'', VBoolean False), (str ''disabled'', VBoolean True),
                       (str ''checked'', VBoolean False), (str ''required'', VBoolean True)]) \<and>
   map_result
     (attributeToString [(str ''hidden'', VBoolean False), (str ''disabled'', VBoolean True),
                         (str ''checked'', VBoolean False), (str ''required'', VBoolean True)])
     [str ''hidden'', str ''disabled'', str ''checked'', str ''required''] =
     Inr [[], str ''disabled'', [], str ''required''] \<and>
   attributesToString two_flags_heap (Some 0) = Inr (str '' disabled required'') \<and>
   createElement 0 two_flags_heap (TagName (str ''input'')) (Some 0) [] =
     Inr (Ref 3, two_flags_heap @ [Array [], Array [], RenderNode (str ''input'') (Some 0) 2]) \<and>
   toString 0 (two_flags_heap @ [Array [], Array [], RenderNode (str ''input'') (Some 0) 2]) 3 =
     Inr (str ''<input disabled required>'') \<and>
   createElement 0 (disabled_heap True) (TagName (str ''input'')) (Some 0) [] =
     Inr (Ref 3, disabled_heap True @ [Array [], Array [], RenderNode (str ''input'') (Some 0) 2]) \<and>
   toString 0 (disabled_heap True @ [Array [], Array [], RenderNode (str ''input'') (Some 0) 2]) 3 =
     Inr (str ''<input disabled>'') \<and>
   createElement 0 (disabled_heap False) (TagName (str ''input'')) (Some 0) [] =
     Inr (Ref 3, disabled_heap False @ [Array [], Array [], RenderNode (str ''input'') (Some 0) 2]) \<and>
   toString 0 (disabled_heap False @ [Array [], Array [], RenderNode (str ''input'') (Some 0) 2]) 3 =
     Inr (str ''<input >'')"
proof -
  let ?kvs = "[(str ''hidden'', VBoolean False), (str ''disabled'', VBoolean True),
               (str ''checked'', VBoolean False), (str ''required'', VBoolean True)]"
  have look: "lookup two_flags_heap 0 = Some (Attributes ?kvs)"
    by (simp add: two_flags_heap_def lookup_def)
  have ss: "map_result (attributeToString ?kvs)
     [str ''hidden'', str ''disabled'', str ''checked'', str ''required''] =
     Inr [[], str ''disabled'', [], str ''required'']"
    by code_simp
  have block: "attributesToString two_flags_heap (Some 0) = Inr (str '' disabled required'')"
    by code_simp
  have run2: "createElement 0 two_flags_heap (TagName (str ''input'')) (Some 0) [] =
     Inr (Ref 3, two_flags_heap @ [Array [], Array [], RenderNode (str ''input'') (Some 0) 2])"
    by code_simp
  have ren2: "toString 0 (two_flags_heap @ [Array [], Array [], RenderNode (str ''input'') (Some 0) 2]) 3 =
     Inr (str ''<input disabled required>'')"
    by code_simp
  have runT: "createElement 0 (disabled_heap True) (TagName (str ''input'')) (Some 0) [] =
     Inr (Ref 3, disabled_heap True @ [Array [], Array [], RenderNode (str ''input'') (Some 0) 2])"
    by code_simp
  have runF: "createElement 0 (disabled_heap False) (TagName (str ''input'')) (Some 0) [] =
     Inr (Ref 3, disabled_heap False @ [Array [], Array [], RenderNode (str ''input'') (Some 0) 2])"
    by code_simp
  have renT: "toString 0 (disabled_heap True @ [Array [], Array [], RenderNode (str ''input'') (Some 0) 2]) 3 =
     Inr (str ''<input disabled>'')"
    by code_simp
  have renF: "toString 0 (disabled_heap False @ [Array [], Array [], RenderNode (str ''input'') (Some 0) 2]) 3 =
     Inr (str ''<input >'')"
    by code_simp
  from boolean_attribute_rendering [of ?kvs "str ''disabled''" True two_flags_heap 0
      "[[], str ''disabled'', [], str ''required'']" 0 0]
    look ss block run2 ren2 runT runF renT renF
  show ?thesis by simp
qed

theorem boolean_attribute_rendering_counterexample:
  "createElement 0 (disabled_heap False) (TagName (str ''input'')) (Some 0) [] =
     Inr (Ref 3, disabled_heap False @ [Array [], Array [], RenderNode (str ''input'') (Some 0) 2]) \<and>
   toString 0 (disabled_heap False @ [Array [], Array [], RenderNode (str ''input'') (Some 0) 2]) 3 =
     Inr (str ''<input >'') \<and>
   toString 0 (disabled_heap False @ [Array [], Array [], RenderNode (str ''input'') (Some 0) 2]) 3 \<noteq>
     Inr (str ''<input>'')"
proof (intro conjI)
  show "createElement 0 (disabled_heap False) (TagName (str ''input'')) (Some 0) [] =
     Inr (Ref 3, disabled_heap False @ [Array [], Array [], RenderNode (str ''input'') (Some 0) 2])"
    by code_simp
  show "toString 0 (disabled_heap False @ [Array [], Array [], RenderNode (str ''input'') (Some 0) 2]) 3 =
     Inr (str ''<input >'')"
    by code_simp
  then show "toString 0 (disabled_heap False @ [Array [], Array [], RenderNode (str ''input'') (Some 0) 2]) 3 \<noteq>
     Inr (str ''<input>'')"
    by (simp add: str_def)
qed

text \<open>
  C3. The name transformer replaces an uppercase letter by a hyphen and its
  lowercase form exactly when a neighbour of the letter is not an uppercase letter (the
  positions before the first and after the last unit count as uppercase), and copies
  every other unit: \<open>ID\<close> stays \<open>ID\<close>. The tag name of a \<open>RenderNode\<close> is the transformed
  name, and it has no uppercase letter whenever every uppercase letter of the name has
  such a neighbour.
\<close>

theorem toKebabCase_boundary_rule:
  "toKebabCase (str ''ID'') = str ''ID'' \<and>
   toKebabCase s =
     concat (map (\<lambda>i. if isUpper s i \<and> has_lower_neighbour s i
                      then [0x2D, s ! i + 0x20] else [s ! i]) [0..<length s]) \<and>
   ((\<forall>i<length s. isUpper s i \<longrightarrow> has_lower_neighbour s i) \<longrightarrow>
      (\<forall>j<length (toKebabCase s). \<not> isUpper (toKebabCase s) j)) \<and>
   (createElement fuel h (TagName s) attributes rawContents = Inr (v, h') \<longrightarrow>
      (\<exists>node c. v = Ref node \<and>
         lookup h' node = Some (RenderNode (toKebabCase s) attributes c)))"
proof (intro conjI impI)
  show "toKebabCase (str ''ID'') = str ''ID''" by code_simp
  show "toKebabCase s =
     concat (map (\<lambda>i. if isUpper s i \<and> has_lower_neighbour s i
                      then [0x2D, s ! i + 0x20] else [s ! i]) [0..<length s])"
    by (rule toKebabCase_units)
next
  assume "\<forall>i<length s. isUpper s i \<longrightarrow> has_lower_neighbour s i"
  then show "\<forall>j<length (toKebabCase s). \<not> isUpper (toKebabCase s) j"
    by (rule toKebabCase_no_upper)
next
  assume "createElement fuel h (TagName s) attributes rawContents = Inr (v, h')"
  then show "\<exists>node c. v = Ref node \<and>
         lookup h' node = Some (RenderNode (toKebabCase s) attributes c)"
    by (rule createElement_TagName_node)
qed


theorem toKebabCase_boundary_rule_witness:
  "isUpper (str ''dataFoo'') 4 \<and> has_lower_neighbour (str ''dataFoo'') 4 \<and>
   toKebabCase (str ''dataFoo'') = str ''data-foo'' \<and>
   createElement 0 [] (TagName (str ''dataFoo'')) None [] =
     Inr (Ref 2, [Array [], Array [], RenderNode (str ''data-foo'') None 1]) \<and>
   lookup [Array [], Array [], RenderNode (str ''data-foo'') None 1] 2 =
     Some (RenderNode (toKebabCase (str ''dataFoo'')) None 1)"
proof -
  have "isUpper (str ''dataFoo'') 4" by code_simp
  moreover have "has_lower_neighbour (str ''dataFoo'') 4" by code_simp
  moreover have k: "toKebabCase (str ''dataFoo'') = str ''data-foo''" by code_simp
  moreover have run: "createElement 0 [] (TagName (str ''dataFoo'')) None [] =
     Inr (Ref 2, [Array [], Array [], RenderNode (str ''data-foo'') None 1])"
    by code_simp
  moreover from toKebabCase_boundary_rule [of "str ''dataFoo''" 0 "[]" None "[]" "Ref 2"
      "[Array [], Array [], RenderNode (str ''data-foo'') None 1]"] run
  have "lookup [Array [], Array [], RenderNode (str ''data-foo'') None 1] 2 =
     Some (RenderNode (toKebabCase (str ''dataFoo'')) None 1)"
    by (simp add: lookup_def k)
  ultimately show ?thesis by simp
qed

theorem toKebabCase_boundary_rule_counterexample:
  "toKebabCase (str ''ID'') = str ''ID'' \<and> toKebabCase (str ''ID'') \<noteq> str ''id'' \<and>
   createElement 0 [] (TagName (str ''ID'')) None [] =
     Inr (Ref 2, [Array [], Array [], RenderNode (str ''ID'') None 1]) \<and>
   isUpper (str ''ID'') 0"
proof (intro conjI)
  show k: "toKebabCase (str ''ID'') = str ''ID''" by code_simp
  show "toKebabCase (str ''ID'') \<noteq> str ''id''" unfolding k by (simp add: str_def)
  show "createElement 0 [] (TagName (str ''ID'')) None [] =
     Inr (Ref 2, [Array [], Array [], RenderNode (str ''ID'') None 1])"
    by code_simp
  show "isUpper (str ''ID'') 0" by code_simp
qed

end
